theory Spec2Isabelle
  imports Complex_Main "HOL-Library.AList" "HOL-Library.Multiset"
begin

section \<open>Units of work, outcomes and the observable world\<close>

text \<open>
  The orchestrator of \<^verbatim>\<open>General_Repo/async_operations.py\<close> schedules opaque callables.
  A callable has a \<^verbatim>\<open>__name__\<close>, a behaviour and a running time. Its behaviour is a
  transformer of the environment it works on (files, remote services, its own counters):
  it returns a Python value or raises an exception, and leaves a new environment.
  Python exceptions are values of \<open>exn\<close>; \<open>TimeoutError\<close> is the class the source names
  \<^verbatim>\<open>asyncio.TimeoutError\<close>. Only subclasses of \<^verbatim>\<open>Exception\<close> are considered.
\<close>

datatype exn =
    TimeoutError
  | ValueError string
  | KeyError string
  | InvalidStateError
  | RuntimeError string

datatype 'v pyval = PyNone | PyVal 'v

type_synonym 'v outcome = "exn + 'v pyval"

record ('s, 'v) callable =
  cname :: string
  call :: "'s \<Rightarrow> 'v outcome \<times> 's"
  elapsed :: real

text \<open>
  The messages handed to the logger, one constructor per format string of the source,
  carrying the interpolated data.
\<close>

datatype level = INFO | WARNING | ERROR

datatype message =
    RunningParallel nat
  | ParallelCompleted
  | TaskError string exn
  | TimedOut string real
  | RetryExhausted string int exn
  | Retrying string int int real
  | RateLimitReached real

text \<open>
  What the orchestrator does to the outside is recorded, in order, in a trace:
  \<open>Invoke\<close> is the dispatch \<^verbatim>\<open>asyncio.to_thread(task, *args)\<close>, \<open>Finish\<close> the moment that
  dispatch completes (normally or with an exception), \<open>Sleep\<close> is \<^verbatim>\<open>asyncio.sleep\<close> and
  \<open>Log\<close> a call of the logger. The trace is only ever appended to and never read by the
  orchestrator.
\<close>

datatype ('s, 'v) event =
    Invoke "('s, 'v) callable"
  | Finish "('s, 'v) callable"
  | Sleep real
  | Log level message

record ('s, 'v) world =
  env :: 's
  trace :: "('s, 'v) event list"

definition emit :: "('s, 'v) event \<Rightarrow> ('s, 'v) world \<Rightarrow> ('s, 'v) world" where
  "emit e w = w\<lparr>trace := trace w @ [e]\<rparr>"

definition logger :: "level \<Rightarrow> message \<Rightarrow> ('s, 'v) world \<Rightarrow> ('s, 'v) world" where
  "logger l m w = emit (Log l m) w"

definition sleep :: "real \<Rightarrow> ('s, 'v) world \<Rightarrow> ('s, 'v) world" where
  "sleep d w = emit (Sleep d) w"

section \<open>The unit invoker \<^verbatim>\<open>run_task\<close>\<close>

text \<open>
  \<^verbatim>\<open>run_task\<close> dispatches the callable to a worker thread and awaits it; an exception is
  logged and raised again. The two halves are separate definitions because the
  concurrent runners dispatch several units before any of them completes. The effect of a
  unit on the environment is taken to happen at the moment it completes.
\<close>

definition dispatch :: "('s, 'v) callable \<Rightarrow> ('s, 'v) world \<Rightarrow> ('s, 'v) world" where
  "dispatch task w = emit (Invoke task) w"

definition complete ::
  "('s, 'v) callable \<Rightarrow> ('s, 'v) world \<Rightarrow> 'v outcome \<times> ('s, 'v) world" where
  "complete task w =
     (case call task (env w) of
        (Inr result, s) \<Rightarrow> (Inr result, emit (Finish task) (w\<lparr>env := s\<rparr>))
      | (Inl e, s) \<Rightarrow>
          (Inl e, logger ERROR (TaskError (cname task) e) (emit (Finish task) (w\<lparr>env := s\<rparr>))))"

definition run_task ::
  "('s, 'v) callable \<Rightarrow> ('s, 'v) world \<Rightarrow> 'v outcome \<times> ('s, 'v) world" where
  "run_task task w = complete task (dispatch task w)"

section \<open>The timeout wrapper \<^verbatim>\<open>run_with_timeout\<close>\<close>

text \<open>
  \<^verbatim>\<open>asyncio.wait_for(self.run_task(task, *args), timeout=timeout)\<close>: with a timeout that is
  not positive the wrapped coroutine is cancelled before its first step, so the unit is
  never dispatched; otherwise the unit is dispatched and the deadline wins unless the unit
  is faster. A unit abandoned at the deadline keeps running in its thread: it finishes
  after the wrapper has returned, so neither its result nor its effect is part of the
  world returned.
\<close>

definition wait_for_run_task ::
  "('s, 'v) callable \<Rightarrow> real \<Rightarrow> ('s, 'v) world \<Rightarrow> 'v outcome \<times> ('s, 'v) world" where
  "wait_for_run_task task timeout w =
     (if timeout \<le> 0 then (Inl TimeoutError, w)
      else if elapsed task < timeout then run_task task w
      else (Inl TimeoutError, dispatch task w))"

definition run_with_timeout ::
  "('s, 'v) callable \<Rightarrow> real \<Rightarrow> ('s, 'v) world \<Rightarrow> 'v outcome \<times> ('s, 'v) world" where
  "run_with_timeout task timeout w =
     (case wait_for_run_task task timeout w of
        (Inl TimeoutError, w') \<Rightarrow>
          (Inr PyNone, logger WARNING (TimedOut (cname task) timeout) w')
      | (r, w') \<Rightarrow> (r, w'))"

section \<open>The retry wrapper \<^verbatim>\<open>run_with_retry\<close>\<close>

text \<open>
  \<^verbatim>\<open>for attempt in range(max_retries)\<close>, as a recursion on \<open>attempt\<close>. When the range is
  exhausted without a \<^verbatim>\<open>return\<close> or \<^verbatim>\<open>raise\<close> (only possible when \<open>max_retries \<le> 0\<close>) the
  Python function falls off its end and returns \<^verbatim>\<open>None\<close>.
\<close>

function retry_loop ::
  "('s, 'v) callable \<Rightarrow> int \<Rightarrow> real \<Rightarrow> int \<Rightarrow> ('s, 'v) world \<Rightarrow> 'v outcome \<times> ('s, 'v) world"
where
  "retry_loop task max_retries retry_delay attempt w =
     (if attempt < max_retries then
        (case run_task task w of
           (Inr result, w1) \<Rightarrow> (Inr result, w1)
         | (Inl e, w1) \<Rightarrow>
             if attempt = max_retries - 1 then
               (Inl e, logger ERROR (RetryExhausted (cname task) max_retries e) w1)
             else
               retry_loop task max_retries retry_delay (attempt + 1)
                 (sleep retry_delay
                   (logger WARNING
                     (Retrying (cname task) (attempt + 1) max_retries retry_delay) w1)))
      else (Inr PyNone, w))"
  by pat_completeness auto
termination
  by (relation "measure (\<lambda>(task, max_retries, retry_delay, attempt, w). nat (max_retries - attempt))")
     auto

definition run_with_retry ::
  "('s, 'v) callable \<Rightarrow> int \<Rightarrow> real \<Rightarrow> ('s, 'v) world \<Rightarrow> 'v outcome \<times> ('s, 'v) world" where
  "run_with_retry task max_retries retry_delay w = retry_loop task max_retries retry_delay 0 w"

section \<open>The priority scheduler \<^verbatim>\<open>run_with_priority\<close>\<close>

text \<open>
  A task descriptor is the dictionary with the keys \<^verbatim>\<open>'task'\<close> and \<^verbatim>\<open>'priority'\<close>.
  \<^verbatim>\<open>sorted(tasks, key=..., reverse=True)\<close> is Python's stable sort run on the reversed list
  and reversed again, which is how \<^verbatim>\<open>reverse=True\<close> keeps equal keys in their original
  order. The loop runs the sorted descriptors one after the other and appends each result.
\<close>

record ('s, 'v) task_info =
  task_of :: "('s, 'v) callable"
  priority :: int

definition sorted_reverse :: "('a \<Rightarrow> int) \<Rightarrow> 'a list \<Rightarrow> 'a list" where
  "sorted_reverse key xs = rev (sort_key key (rev xs))"

fun priority_loop ::
  "('s, 'v) task_info list \<Rightarrow> 'v pyval list \<Rightarrow> ('s, 'v) world \<Rightarrow>
     (exn + 'v pyval list) \<times> ('s, 'v) world" where
  "priority_loop [] results w = (Inr results, w)"
| "priority_loop (task_info # rest) results w =
     (case run_task (task_of task_info) w of
        (Inl e, w') \<Rightarrow> (Inl e, w')
      | (Inr result, w') \<Rightarrow> priority_loop rest (results @ [result]) w')"

definition run_with_priority ::
  "('s, 'v) task_info list \<Rightarrow> ('s, 'v) world \<Rightarrow> (exn + 'v pyval list) \<times> ('s, 'v) world" where
  "run_with_priority tasks w = priority_loop (sorted_reverse priority tasks) [] w"

section \<open>The parallel runner \<^verbatim>\<open>run_in_parallel\<close>\<close>

text \<open>
  \<^verbatim>\<open>asyncio.gather(*[self.run_task(task, *args) for task in tasks])\<close>: every unit is
  dispatched, in submission order, before any of them completes. The units then complete
  in the order of their running times (units that take equally long, in submission order);
  each completion stores its result in the slot of its position. The first completion that
  raises makes \<^verbatim>\<open>gather\<close> raise that exception at once; what the units still running do
  later is not part of the world returned. When all slots are filled the results are read
  off in submission order (reading an empty slot would be \<^verbatim>\<open>InvalidStateError\<close>).
  The order of completion is an idealisation: it takes every unit to start running when
  it is dispatched, as if the thread pool behind \<^verbatim>\<open>asyncio.to_thread\<close> never ran out of
  workers. The properties proved below hold for every order of completion.
\<close>

definition completion_order :: "('s, 'v) callable list \<Rightarrow> nat list" where
  "completion_order us = sort_key (\<lambda>i. elapsed (us ! i)) [0..<length us]"

fun settle ::
  "('s, 'v) callable list \<Rightarrow> nat list \<Rightarrow> 'v pyval option list \<Rightarrow> ('s, 'v) world \<Rightarrow>
     (exn + 'v pyval option list) \<times> ('s, 'v) world" where
  "settle us [] slots w = (Inr slots, w)"
| "settle us (i # rest) slots w =
     (case complete (us ! i) w of
        (Inl e, w') \<Rightarrow> (Inl e, w')
      | (Inr result, w') \<Rightarrow> settle us rest (slots[i := Some result]) w')"

definition gather_run_task ::
  "('s, 'v) callable list \<Rightarrow> ('s, 'v) world \<Rightarrow> (exn + 'v pyval list) \<times> ('s, 'v) world" where
  "gather_run_task us w =
     (case settle us (completion_order us) (replicate (length us) None) (fold dispatch us w) of
        (Inl e, w') \<Rightarrow> (Inl e, w')
      | (Inr slots, w') \<Rightarrow>
          (case those slots of
             Some results \<Rightarrow> (Inr results, w')
           | None \<Rightarrow> (Inl InvalidStateError, w')))"

definition run_in_parallel ::
  "('s, 'v) callable list \<Rightarrow> ('s, 'v) world \<Rightarrow> (exn + 'v pyval list) \<times> ('s, 'v) world" where
  "run_in_parallel tasks w =
     (case gather_run_task tasks (logger INFO (RunningParallel (length tasks)) w) of
        (Inl e, w') \<Rightarrow> (Inl e, w')
      | (Inr results, w') \<Rightarrow> (Inr results, logger INFO ParallelCompleted w'))"

section \<open>The rate-limited batcher \<^verbatim>\<open>run_with_rate_limit\<close>\<close>

text \<open>
  \<^verbatim>\<open>for i in range(0, len(tasks), rate_limit)\<close>, as a recursion on \<open>i\<close>. A step of zero makes
  \<^verbatim>\<open>range\<close> raise \<^verbatim>\<open>ValueError\<close>; a negative step gives an empty range, so the loop body
  never runs. \<open>slice xs i j\<close> is \<^verbatim>\<open>xs[i:j]\<close> for \<open>0 \<le> i \<le> j\<close>, the only slices taken here.
\<close>

definition slice :: "'a list \<Rightarrow> int \<Rightarrow> int \<Rightarrow> 'a list" where
  "slice xs i j = take (nat (j - i)) (drop (nat i) xs)"

function rate_limit_loop ::
  "('s, 'v) callable list \<Rightarrow> int \<Rightarrow> real \<Rightarrow> int \<Rightarrow> 'v pyval list \<Rightarrow> ('s, 'v) world \<Rightarrow>
     (exn + 'v pyval list) \<times> ('s, 'v) world" where
  "rate_limit_loop tasks rate_limit time_period i results w =
     (if 0 < rate_limit \<and> i < int (length tasks) then
        (case run_in_parallel (slice tasks i (i + rate_limit)) w of
           (Inl e, w1) \<Rightarrow> (Inl e, w1)
         | (Inr batch_results, w1) \<Rightarrow>
             rate_limit_loop tasks rate_limit time_period (i + rate_limit)
               (results @ batch_results)
               (if i + rate_limit < int (length tasks)
                then sleep time_period (logger INFO (RateLimitReached time_period) w1)
                else w1))
      else (Inr results, w))"
  by pat_completeness auto
termination
  by (relation "measure (\<lambda>(tasks, rate_limit, time_period, i, results, w). nat (int (length tasks) - i))")
     auto

declare rate_limit_loop.simps [simp del]

definition run_with_rate_limit ::
  "('s, 'v) callable list \<Rightarrow> int \<Rightarrow> real \<Rightarrow> ('s, 'v) world \<Rightarrow>
     (exn + 'v pyval list) \<times> ('s, 'v) world" where
  "run_with_rate_limit tasks rate_limit time_period w =
     (if rate_limit = 0 then (Inl (ValueError ''range() arg 3 must not be zero''), w)
      else rate_limit_loop tasks rate_limit time_period 0 [] w)"

section \<open>The dependency graph runner \<^verbatim>\<open>run_with_dependency_graph\<close>\<close>

text \<open>
  The two dictionaries are association lists in insertion order, read with \<open>map_of\<close>.
  The run keeps \<^verbatim>\<open>results\<close>, a dictionary in insertion order, and the set \<^verbatim>\<open>in_progress\<close>;
  both are fields of the state that the nested function \<^verbatim>\<open>run_task_with_deps\<close> updates,
  next to the world. \<open>dict_get\<close> is \<^verbatim>\<open>dict.get\<close> with a default, \<open>circular\<close> the
  \<^verbatim>\<open>ValueError\<close> of the source. A missing key of \<^verbatim>\<open>tasks\<close> and the removal of a name that
  is not in the set raise \<^verbatim>\<open>KeyError\<close>. \<open>await_each\<close> is the loop that awaits
  \<^verbatim>\<open>run_task_with_deps\<close> for each name of a list in turn: the source has it twice, over the
  prerequisites of a task and over the names of all tasks. The recursion terminates
  because every nested call has one more name in progress, out of the finitely many names
  that have prerequisites.
\<close>

record ('s, 'v) resolution =
  dg_results :: "(string \<times> 'v pyval) list"
  dg_in_progress :: "string set"
  dg_world :: "('s, 'v) world"

definition circular :: "string \<Rightarrow> exn" where
  "circular task_name = ValueError (''Circular dependency detected for task '' @ task_name)"

definition dict_get :: "('k \<times> 'a) list \<Rightarrow> 'k \<Rightarrow> 'a \<Rightarrow> 'a" where
  "dict_get d k dflt = (case map_of d k of None \<Rightarrow> dflt | Some v \<Rightarrow> v)"

function run_task_with_deps ::
  "(string \<times> ('s, 'v) callable) list \<Rightarrow> (string \<times> string list) list \<Rightarrow> string \<Rightarrow>
     ('s, 'v) resolution \<Rightarrow> 'v outcome \<times> ('s, 'v) resolution"
and await_each ::
  "(string \<times> ('s, 'v) callable) list \<Rightarrow> (string \<times> string list) list \<Rightarrow> string list \<Rightarrow>
     ('s, 'v) resolution \<Rightarrow> (exn + unit) \<times> ('s, 'v) resolution"
where
  "run_task_with_deps tasks dependencies task_name st =
     (case map_of (dg_results st) task_name of
        Some r \<Rightarrow> (Inr r, st)
      | None \<Rightarrow>
          if task_name \<in> dg_in_progress st then
            (Inl (circular task_name), st)
          else
            (case await_each tasks dependencies (dict_get dependencies task_name [])
                    (st\<lparr>dg_in_progress := insert task_name (dg_in_progress st)\<rparr>) of
               (Inl e, st1) \<Rightarrow> (Inl e, st1)
             | (Inr u, st1) \<Rightarrow>
                 (case map_of tasks task_name of
                    None \<Rightarrow> (Inl (KeyError task_name), st1)
                  | Some task \<Rightarrow>
                      (case run_task task (dg_world st1) of
                         (Inl e, w) \<Rightarrow> (Inl e, st1\<lparr>dg_world := w\<rparr>)
                       | (Inr result, w) \<Rightarrow>
                           if task_name \<in> dg_in_progress st1 then
                             (Inr result,
                              st1\<lparr>dg_world := w,
                                  dg_results := AList.update task_name result (dg_results st1),
                                  dg_in_progress := dg_in_progress st1 - {task_name}\<rparr>)
                           else
                             (Inl (KeyError task_name),
                              st1\<lparr>dg_world := w,
                                  dg_results :=
                                    AList.update task_name result (dg_results st1)\<rparr>)))))"
| "await_each tasks dependencies [] st = (Inr (), st)"
| "await_each tasks dependencies (dep # deps) st =
     (case run_task_with_deps tasks dependencies dep st of
        (Inl e, st1) \<Rightarrow> (Inl e, st1)
      | (Inr r, st1) \<Rightarrow> await_each tasks dependencies deps st1)"
  by pat_completeness auto


lemma in_progress_grows:
  "run_task_with_deps_await_each_dom (Inl (tasks, dependencies, task_name, st)) \<Longrightarrow>
     dg_in_progress st \<subseteq> dg_in_progress (snd (run_task_with_deps tasks dependencies task_name st))"
  "run_task_with_deps_await_each_dom (Inr (tasks, dependencies, names, st)) \<Longrightarrow>
     dg_in_progress st \<subseteq> dg_in_progress (snd (await_each tasks dependencies names st))"
proof (induction rule: run_task_with_deps_await_each.pinduct)
  case (1 tasks dependencies task_name st)
  then show ?case
    by (auto simp: run_task_with_deps.psimps split: option.splits prod.splits sum.splits if_splits)
next
  case (2 tasks dependencies st)
  then show ?case by (simp add: await_each.psimps)
next
  case (3 tasks dependencies dep deps st)
  obtain r st1 where r: "run_task_with_deps tasks dependencies dep st = (r, st1)"
    by (metis prod.collapse)
  have g1: "dg_in_progress st \<subseteq> dg_in_progress st1" using 3(2) r by simp
  show ?case
  proof (cases r)
    case (Inl e)
    then show ?thesis using 3(1) r g1 by (simp add: await_each.psimps)
  next
    case (Inr v)
    have "dg_in_progress st1 \<subseteq> dg_in_progress (snd (await_each tasks dependencies deps st1))"
      using 3(3)[OF r[symmetric] Inr] .
    then show ?thesis using 3(1) r g1 Inr by (simp add: await_each.psimps)
  qed
qed

termination run_task_with_deps
proof (relation "inv_image (less_than <*lex*> less_than)
     (\<lambda>x. case x of
        Inl (tasks, dependencies, task_name, st) \<Rightarrow>
          (card (fst ` set dependencies - dg_in_progress st) + 1, 0)
      | Inr (tasks, dependencies, names, st) \<Rightarrow>
          (card (fst ` set dependencies - dg_in_progress st) + (if names = [] then 0 else 1),
           length names))", goal_cases)
  case 1
  show ?case by (intro wf_inv_image wf_lex_prod wf_less_than)
next
  case (2 tasks dependencies task_name st)
  let ?K = "fst ` set dependencies"
  let ?P = "dg_in_progress st"
  have fin: "finite (?K - ?P)" by simp
  show ?case
  proof (cases "dict_get dependencies task_name [] = []")
    case True
    have "card (?K - insert task_name ?P) \<le> card (?K - ?P)"
      by (rule card_mono[OF fin]) auto
    then show ?thesis using True by simp
  next
    case False
    then have "task_name \<in> ?K"
      by (auto simp: dict_get_def map_of_eq_None_iff split: option.splits)
        (metis domI domIff map_of_eq_None_iff)
    then have "?K - insert task_name ?P \<subset> ?K - ?P" using 2 by auto
    then have "card (?K - insert task_name ?P) < card (?K - ?P)"
      by (rule psubset_card_mono[OF fin])
    then show ?thesis using False by simp
  qed
next
  case (3 tasks dependencies dep deps st)
  show ?case by simp
next
  case (4 tasks dependencies dep deps st x y b)
  let ?K = "fst ` set dependencies"
  have "dg_in_progress st \<subseteq> dg_in_progress (snd (run_task_with_deps tasks dependencies dep st))"
    using 4 by (intro in_progress_grows(1))
  then have "dg_in_progress st \<subseteq> dg_in_progress y"
    using 4(1) by (metis snd_conv)
  then have "card (?K - dg_in_progress y) \<le> card (?K - dg_in_progress st)"
    by (intro card_mono) auto
  then show ?case by auto
qed

declare run_task_with_deps.simps [simp del]

definition run_with_dependency_graph ::
  "(string \<times> ('s, 'v) callable) list \<Rightarrow> (string \<times> string list) list \<Rightarrow> ('s, 'v) world \<Rightarrow>
     (exn + (string \<times> 'v pyval) list) \<times> ('s, 'v) world" where
  "run_with_dependency_graph tasks dependencies w =
     (case await_each tasks dependencies (map fst tasks)
             \<lparr>dg_results = [], dg_in_progress = {}, dg_world = w\<rparr> of
        (Inl e, st) \<Rightarrow> (Inl e, dg_world st)
      | (Inr u, st) \<Rightarrow> (Inr (dg_results st), dg_world st))"

section \<open>The concurrency-bounded runner \<^verbatim>\<open>run_with_resource_management\<close>\<close>

text \<open>
  The runner creates \<^verbatim>\<open>asyncio.Semaphore(max_concurrent)\<close> and gathers one coroutine
  \<^verbatim>\<open>run_with_semaphore(task)\<close> per unit, each of them
  \<^verbatim>\<open>async with semaphore: return await self.run_task(task, *args)\<close>. The coroutines are
  followed step by step, a step being what one coroutine does between two suspensions.
  The state of the call holds the counter of the semaphore, the positions of the
  coroutines blocked in \<^verbatim>\<open>acquire\<close> (the one blocked first at the head), the positions of
  the coroutines that a release has woken and that have not resumed yet, the positions of
  the units that were dispatched and whose coroutine has not received their outcome yet,
  the result slots of \<^verbatim>\<open>gather\<close>, the first exception raised, and the world.
\<close>

record ('s, 'v) sem_state =
  sem_value :: nat
  sem_waiters :: "nat list"
  sem_woken :: "nat list"
  sem_running :: "nat list"
  sem_slots :: "'v pyval option list"
  sem_raised :: "exn option"
  sem_world :: "('s, 'v) world"

text \<open>
  \<open>acquire tasks i\<close> is the first step of the coroutine of position \<open>i\<close>: entering
  \<^verbatim>\<open>async with\<close> takes a slot when the counter is positive and no coroutine is blocked,
  and the coroutine goes on to dispatch its unit (\<^verbatim>\<open>run_task\<close> up to
  \<^verbatim>\<open>await asyncio.to_thread\<close>); otherwise it blocks. \<open>release\<close> is what leaving
  \<^verbatim>\<open>async with\<close> does to the semaphore: the slot goes to the coroutine blocked first, which is
  woken, and the counter goes up only when no coroutine is blocked.
\<close>

definition acquire ::
  "('s, 'v) callable list \<Rightarrow> nat \<Rightarrow> ('s, 'v) sem_state \<Rightarrow> ('s, 'v) sem_state" where
  "acquire tasks i st =
     (if 0 < sem_value st \<and> sem_waiters st = [] then
        st\<lparr>sem_value := sem_value st - 1,
           sem_running := sem_running st @ [i],
           sem_world := dispatch (tasks ! i) (sem_world st)\<rparr>
      else st\<lparr>sem_waiters := sem_waiters st @ [i]\<rparr>)"

definition release :: "('s, 'v) sem_state \<Rightarrow> ('s, 'v) sem_state" where
  "release st =
     (case sem_waiters st of
        [] \<Rightarrow> st\<lparr>sem_value := sem_value st + 1\<rparr>
      | i # rest \<Rightarrow> st\<lparr>sem_waiters := rest, sem_woken := sem_woken st @ [i]\<rparr>)"

text \<open>
  \<open>finish tasks j\<close> is the step in which the coroutine of position \<open>j\<close> receives the outcome
  of its unit: \<^verbatim>\<open>run_task\<close> returns the result, which \<^verbatim>\<open>gather\<close> stores in slot \<open>j\<close>, or
  logs the exception and raises it again; either way the coroutine leaves \<^verbatim>\<open>async with\<close>.
  \<open>resume tasks\<close> is the step in which the coroutine woken first resumes and dispatches
  its unit.
\<close>

definition finish ::
  "('s, 'v) callable list \<Rightarrow> nat \<Rightarrow> ('s, 'v) sem_state \<Rightarrow> ('s, 'v) sem_state" where
  "finish tasks j st =
     (case complete (tasks ! j) (sem_world st) of
        (Inr result, w) \<Rightarrow>
          release (st\<lparr>sem_running := remove1 j (sem_running st),
                      sem_slots := (sem_slots st)[j := Some result],
                      sem_world := w\<rparr>)
      | (Inl e, w) \<Rightarrow>
          release (st\<lparr>sem_running := remove1 j (sem_running st),
                      sem_raised := (case sem_raised st of None \<Rightarrow> Some e | Some e' \<Rightarrow> Some e'),
                      sem_world := w\<rparr>))"

definition resume ::
  "('s, 'v) callable list \<Rightarrow> ('s, 'v) sem_state \<Rightarrow> ('s, 'v) sem_state" where
  "resume tasks st =
     (case sem_woken st of
        [] \<Rightarrow> st
      | i # rest \<Rightarrow>
          st\<lparr>sem_woken := rest,
             sem_running := sem_running st @ [i],
             sem_world := dispatch (tasks ! i) (sem_world st)\<rparr>)"

text \<open>
  \<^verbatim>\<open>gather\<close> schedules the coroutines in submission order, and each of them takes its
  first step before the outcome of any unit is received: this is \<open>start\<close>. From then on
  any unit in flight may be the next whose outcome is received, and a woken coroutine may
  resume before or after further outcomes are received; nothing is assumed about how
  long the units run. \<open>gather_run_with_semaphore tasks k w st\<close>: \<open>st\<close> is a state the call
  can be in, from world \<open>w\<close>, with a semaphore of value \<open>k\<close>.
\<close>

definition start ::
  "('s, 'v) callable list \<Rightarrow> nat \<Rightarrow> ('s, 'v) world \<Rightarrow> ('s, 'v) sem_state" where
  "start tasks k w =
     fold (acquire tasks) [0..<length tasks]
       \<lparr>sem_value = k, sem_waiters = [], sem_woken = [], sem_running = [],
        sem_slots = replicate (length tasks) None, sem_raised = None, sem_world = w\<rparr>"

inductive gather_run_with_semaphore ::
  "('s, 'v) callable list \<Rightarrow> nat \<Rightarrow> ('s, 'v) world \<Rightarrow> ('s, 'v) sem_state \<Rightarrow> bool"
  for tasks k w where
  started: "gather_run_with_semaphore tasks k w (start tasks k w)"
| finished: "gather_run_with_semaphore tasks k w st \<Longrightarrow> j \<in> set (sem_running st) \<Longrightarrow>
     gather_run_with_semaphore tasks k w (finish tasks j st)"
| resumed: "gather_run_with_semaphore tasks k w st \<Longrightarrow> sem_woken st \<noteq> [] \<Longrightarrow>
     gather_run_with_semaphore tasks k w (resume tasks st)"

text \<open>
  \<^verbatim>\<open>gather\<close> raises the first exception raised by a coroutine; when no coroutine raised and
  none is left, it returns the results read off the slots in submission order. After a
  failure the caller resumes a few steps later, and which steps of the other coroutines
  come before that is left open: \<open>run_with_resource_management tasks max_concurrent w\<close>
  holds of every outcome and world the call may return with. \<^verbatim>\<open>asyncio.Semaphore\<close> refuses
  a negative value with a \<^verbatim>\<open>ValueError\<close>. A call that ends in no state with an outcome never
  returns.
\<close>

definition gather_result :: "('s, 'v) sem_state \<Rightarrow> (exn + 'v pyval list) option" where
  "gather_result st =
     (case sem_raised st of
        Some e \<Rightarrow> Some (Inl e)
      | None \<Rightarrow>
          if sem_running st = [] \<and> sem_woken st = [] \<and> sem_waiters st = [] then
            (case those (sem_slots st) of
               Some results \<Rightarrow> Some (Inr results)
             | None \<Rightarrow> Some (Inl InvalidStateError))
          else None)"

inductive run_with_resource_management ::
  "('s, 'v) callable list \<Rightarrow> int \<Rightarrow> ('s, 'v) world \<Rightarrow>
     (exn + 'v pyval list) \<times> ('s, 'v) world \<Rightarrow> bool"
  for tasks max_concurrent w where
  refused: "max_concurrent < 0 \<Longrightarrow>
     run_with_resource_management tasks max_concurrent w
       (Inl (ValueError ''Semaphore initial value must be >= 0''), w)"
| returned: "0 \<le> max_concurrent \<Longrightarrow>
     gather_run_with_semaphore tasks (nat max_concurrent) w st \<Longrightarrow>
     gather_result st = Some r \<Longrightarrow>
     run_with_resource_management tasks max_concurrent w (r, sem_world st)"

section \<open>Observations on traces\<close>

text \<open>
  \<open>since w w'\<close> is what a run from world \<open>w\<close> to world \<open>w'\<close> appended to the trace;
  \<open>schedule\<close> keeps the dispatches and the sleeps of a trace, in order.
\<close>

fun is_invoke :: "('s, 'v) event \<Rightarrow> bool" where
  "is_invoke (Invoke u) = True"
| "is_invoke _ = False"

fun is_sleep :: "('s, 'v) event \<Rightarrow> bool" where
  "is_sleep (Sleep d) = True"
| "is_sleep _ = False"

definition schedule :: "('s, 'v) event list \<Rightarrow> ('s, 'v) event list" where
  "schedule evs = filter (\<lambda>e. is_invoke e \<or> is_sleep e) evs"

definition since :: "('s, 'v) world \<Rightarrow> ('s, 'v) world \<Rightarrow> ('s, 'v) event list" where
  "since w w' = drop (length (trace w)) (trace w')"

text \<open>
  \<open>sequential us\<close> is the trace of units run strictly one after the other, each finished
  before the next is dispatched, none of them failing.
\<close>

definition sequential :: "('s, 'v) callable list \<Rightarrow> ('s, 'v) event list" where
  "sequential us = concat (map (\<lambda>u. [Invoke u, Finish u]) us)"

text \<open>
  \<open>filled us slots\<close>: every slot that holds a value holds one returned by the unit of its
  position.
\<close>

definition filled :: "('s, 'v) callable list \<Rightarrow> 'v pyval option list \<Rightarrow> bool" where
  "filled us slots \<longleftrightarrow> length slots = length us \<and>
     (\<forall>j<length us. \<forall>v. slots ! j = Some v \<longrightarrow> (\<exists>s. fst (call (us ! j) s) = Inr v))"

text \<open>
  The batches as the specification words them: \<open>batch B xs k\<close> is the \<open>k\<close>-th of the
  consecutive groups of at most \<open>B\<close> elements of \<open>xs\<close>, \<open>batch_count n B\<close> their number,
  the ceiling of \<open>n / B\<close>. \<open>batched_schedule B P us k0\<close> is the schedule of the groups from
  the \<open>k0\<close>-th on: the units of a group dispatched in submission order, and one sleep of \<open>P\<close>
  after every group but the last. \<open>returned_by u r\<close>: \<open>r\<close> is a value that unit \<open>u\<close>
  returns.
\<close>

definition batch :: "nat \<Rightarrow> 'a list \<Rightarrow> nat \<Rightarrow> 'a list" where
  "batch B xs k = take B (drop (k * B) xs)"

definition batch_count :: "nat \<Rightarrow> nat \<Rightarrow> nat" where
  "batch_count n B = (n + B - 1) div B"

definition batched_schedule ::
  "nat \<Rightarrow> real \<Rightarrow> ('s, 'v) callable list \<Rightarrow> nat \<Rightarrow> ('s, 'v) event list" where
  "batched_schedule B P us k0 =
     concat (map (\<lambda>k. map Invoke (batch B us k) @
                       (if k + 1 < batch_count (length us) B then [Sleep P] else []))
                 [k0..<batch_count (length us) B])"

text \<open>
  \<open>aborted_schedule B P us k0 k\<close> is the schedule of a run that ends in group \<open>k\<close>: every
  group from the \<open>k0\<close>-th up to the one before \<open>k\<close> dispatched and followed by a sleep of
  \<open>P\<close>, then the units of group \<open>k\<close> dispatched, and nothing after them.
\<close>

definition aborted_schedule ::
  "nat \<Rightarrow> real \<Rightarrow> ('s, 'v) callable list \<Rightarrow> nat \<Rightarrow> nat \<Rightarrow> ('s, 'v) event list" where
  "aborted_schedule B P us k0 k =
     concat (map (\<lambda>j. map Invoke (batch B us j) @ [Sleep P]) [k0..<k]) @
     map Invoke (batch B us k)"

definition returned_by :: "('s, 'v) callable \<Rightarrow> 'v pyval \<Rightarrow> bool" where
  "returned_by u r \<longleftrightarrow> (\<exists>s. fst (call u s) = Inr r)"

text \<open>
  \<open>raised_by u e\<close>: \<open>e\<close> is an exception that unit \<open>u\<close> raises. \<open>aborted us u e\<close> is the
  trace of a sequential run cut short: the units \<open>us\<close> ran one after the other and
  finished, then \<open>u\<close> was dispatched and raised \<open>e\<close>, which the unit invoker logged; nothing
  was dispatched after it.
\<close>

definition raised_by :: "('s, 'v) callable \<Rightarrow> exn \<Rightarrow> bool" where
  "raised_by u e \<longleftrightarrow> (\<exists>s. fst (call u s) = Inl e)"

definition aborted ::
  "('s, 'v) callable list \<Rightarrow> ('s, 'v) callable \<Rightarrow> exn \<Rightarrow> ('s, 'v) event list" where
  "aborted us u e = sequential us @ [Invoke u, Finish u, Log ERROR (TaskError (cname u) e)]"

text \<open>
  The dependency graph: \<open>edges\<close> has an edge from every name to each of its declared
  prerequisites. \<open>resolved_order deps ks\<close>: no name occurs twice in \<open>ks\<close> and all
  prerequisites of a name stand before it. \<open>resolves deps seen t seen'\<close> is the resolution
  of a task as the specification words it, on the list of the names resolved so far: a
  name already resolved changes nothing; otherwise the prerequisites are resolved in
  listed order and the name is added after them; \<open>resolves_all\<close> does so for the names of
  a list in turn. \<open>unit_failure tasks e\<close>: \<open>e\<close> is an exception raised by the unit of some
  task. \<open>dg_error\<close> lists what a run can raise: the cycle error for a name on a cycle, the
  \<^verbatim>\<open>KeyError\<close> of a name that is not a task, or a unit's failure. The remaining
  definitions state the invariant of the run and what a call establishes.
\<close>

definition edges :: "(string \<times> string list) list \<Rightarrow> (string \<times> string) set" where
  "edges dependencies = {(t, d). d \<in> set (dict_get dependencies t [])}"

definition resolved_order :: "(string \<times> string list) list \<Rightarrow> string list \<Rightarrow> bool" where
  "resolved_order dependencies ks \<longleftrightarrow>
     distinct ks \<and> (\<forall>i<length ks. set (dict_get dependencies (ks ! i) []) \<subseteq> set (take i ks))"

inductive resolves ::
  "(string \<times> string list) list \<Rightarrow> string list \<Rightarrow> string \<Rightarrow> string list \<Rightarrow> bool"
and resolves_all ::
  "(string \<times> string list) list \<Rightarrow> string list \<Rightarrow> string list \<Rightarrow> string list \<Rightarrow> bool"
where
  cached: "t \<in> set seen \<Longrightarrow> resolves dependencies seen t seen"
| fresh: "t \<notin> set seen \<Longrightarrow> resolves_all dependencies seen (dict_get dependencies t []) seen' \<Longrightarrow>
          resolves dependencies seen t (seen' @ [t])"
| none: "resolves_all dependencies seen [] seen"
| more: "resolves dependencies seen d seen1 \<Longrightarrow> resolves_all dependencies seen1 ds seen2 \<Longrightarrow>
         resolves_all dependencies seen (d # ds) seen2"

definition keys :: "('s, 'v) resolution \<Rightarrow> string list" where
  "keys st = map fst (dg_results st)"

definition unit_failure :: "(string \<times> ('s, 'v) callable) list \<Rightarrow> exn \<Rightarrow> bool" where
  "unit_failure tasks e \<longleftrightarrow> (\<exists>u\<in>snd ` set tasks. \<exists>s. fst (call u s) = Inl e)"

definition dg_error ::
  "(string \<times> ('s, 'v) callable) list \<Rightarrow> (string \<times> string list) list \<Rightarrow> string set \<Rightarrow> exn \<Rightarrow> bool"
where
  "dg_error tasks dependencies names e \<longleftrightarrow>
     (\<exists>x. e = circular x \<and> (x, x) \<in> (edges dependencies)\<^sup>+) \<or>
     (\<exists>x. e = KeyError x \<and> x \<notin> fst ` set tasks \<and> x \<in> names) \<or>
     unit_failure tasks e"

definition dg_inv ::
  "(string \<times> ('s, 'v) callable) list \<Rightarrow> (string \<times> string list) list \<Rightarrow> ('s, 'v) resolution \<Rightarrow> bool"
where
  "dg_inv tasks dependencies st \<longleftrightarrow>
     set (keys st) \<inter> dg_in_progress st = {} \<and>
     resolved_order dependencies (keys st) \<and>
     (\<forall>(x, v)\<in>set (dg_results st). \<exists>u. map_of tasks x = Some u \<and> returned_by u v)"

definition path_inv ::
  "(string \<times> string list) list \<Rightarrow> ('s, 'v) resolution \<Rightarrow> string set \<Rightarrow> bool" where
  "path_inv dependencies st targets \<longleftrightarrow>
     (\<forall>p\<in>dg_in_progress st. \<forall>t\<in>targets. (p, t) \<in> (edges dependencies)\<^sup>+)"

definition step_ok ::
  "(string \<times> ('s, 'v) callable) list \<Rightarrow> (string \<times> string list) list \<Rightarrow>
     ('s, 'v) resolution \<Rightarrow> ('s, 'v) resolution \<Rightarrow> string list \<Rightarrow> bool" where
  "step_ok tasks dependencies st st' new \<longleftrightarrow>
     dg_in_progress st' = dg_in_progress st \<and> dg_inv tasks dependencies st' \<and>
     keys st' = keys st @ new \<and>
     (\<exists>evs us. trace (dg_world st') = trace (dg_world st) @ evs \<and>
        list_all2 (\<lambda>x u. map_of tasks x = Some u) new us \<and>
        filter is_invoke evs = map Invoke us)"

definition task_post ::
  "(string \<times> ('s, 'v) callable) list \<Rightarrow> (string \<times> string list) list \<Rightarrow> string \<Rightarrow>
     ('s, 'v) resolution \<Rightarrow> 'v outcome \<times> ('s, 'v) resolution \<Rightarrow> bool" where
  "task_post tasks dependencies t st res \<longleftrightarrow>
     (case res of
        (Inr v, st') \<Rightarrow>
          (\<exists>new. step_ok tasks dependencies st st' new) \<and>
          resolves dependencies (keys st) t (keys st') \<and>
          map_of (dg_results st') t = Some v
      | (Inl e, st') \<Rightarrow> dg_error tasks dependencies (insert t (Range (edges dependencies))) e)"

definition each_post ::
  "(string \<times> ('s, 'v) callable) list \<Rightarrow> (string \<times> string list) list \<Rightarrow> string list \<Rightarrow>
     ('s, 'v) resolution \<Rightarrow> (exn + unit) \<times> ('s, 'v) resolution \<Rightarrow> bool" where
  "each_post tasks dependencies ds st res \<longleftrightarrow>
     (case res of
        (Inr u, st') \<Rightarrow>
          (\<exists>new. step_ok tasks dependencies st st' new) \<and>
          resolves_all dependencies (keys st) ds (keys st') \<and>
          set ds \<subseteq> set (keys st')
      | (Inl e, st') \<Rightarrow> dg_error tasks dependencies (set ds \<union> Range (edges dependencies)) e)"


text \<open>
  \<open>dg_returns tasks deps w results\<close>: the run returns \<open>results\<close>, whose keys are exactly the
  task names, each once, every name after all its prerequisites, in the order of the
  depth-first resolution of the task names; the units dispatched are the units of these
  names, each exactly once, in that order; and every value is one returned by the unit of
  its name.
\<close>

definition dg_returns ::
  "(string \<times> ('s, 'v) callable) list \<Rightarrow> (string \<times> string list) list \<Rightarrow> ('s, 'v) world \<Rightarrow>
     (string \<times> 'v pyval) list \<Rightarrow> bool" where
  "dg_returns tasks dependencies w results \<longleftrightarrow>
     fst (run_with_dependency_graph tasks dependencies w) = Inr results \<and>
     distinct (map fst results) \<and>
     set (map fst results) = fst ` set tasks \<and>
     resolved_order dependencies (map fst results) \<and>
     resolves_all dependencies [] (map fst tasks) (map fst results) \<and>
     (\<exists>us. list_all2 (\<lambda>x u. map_of tasks x = Some u) (map fst results) us \<and>
        filter is_invoke (since w (snd (run_with_dependency_graph tasks dependencies w))) =
          map Invoke us) \<and>
     list_all (\<lambda>(x, v). \<exists>u. map_of tasks x = Some u \<and> returned_by u v) results"

text \<open>
  The units in flight. \<open>dispatched evs\<close> and \<open>completed evs\<close> count the units dispatched and
  the outcomes received in a trace, and \<open>in_flight evs\<close> is their difference: the number
  of units that were handed to a worker thread and whose outcome has not come back yet. A
  unit that is running is in flight. \<open>never_more_than k evs\<close>: at no moment of the trace
  \<open>evs\<close>, that is after none of its prefixes, were more than \<open>k\<close> units in flight.
  \<open>admitted tasks k evs\<close> is the number of units that own a slot or have owned one when
  the trace is \<open>evs\<close>: \<open>k\<close> of them at the start and one more for every outcome received,
  as long as there are units left.
\<close>

fun is_finish :: "('s, 'v) event \<Rightarrow> bool" where
  "is_finish (Finish u) = True"
| "is_finish _ = False"

definition dispatched :: "('s, 'v) event list \<Rightarrow> nat" where
  "dispatched evs = length (filter is_invoke evs)"

definition completed :: "('s, 'v) event list \<Rightarrow> nat" where
  "completed evs = length (filter is_finish evs)"

definition in_flight :: "('s, 'v) event list \<Rightarrow> int" where
  "in_flight evs = int (dispatched evs) - int (completed evs)"

definition never_more_than :: "nat \<Rightarrow> ('s, 'v) event list \<Rightarrow> bool" where
  "never_more_than k evs =
     list_all (\<lambda>n. in_flight (take n evs) \<le> int k) [0..<Suc (length evs)]"

definition admitted :: "('s, 'v) callable list \<Rightarrow> nat \<Rightarrow> ('s, 'v) event list \<Rightarrow> nat" where
  "admitted tasks k evs = min (length tasks) (k + completed evs)"

text \<open>
  What holds of every state of a call of \<^verbatim>\<open>run_with_resource_management\<close>: \<open>sem_inv\<close> for
  the semaphore and the trace, \<open>slots_inv\<close> for the result slots and the exception.
  \<open>pending\<close> bounds the number of steps that are left.
\<close>

definition sem_inv ::
  "('s, 'v) callable list \<Rightarrow> nat \<Rightarrow> ('s, 'v) world \<Rightarrow> ('s, 'v) sem_state \<Rightarrow> bool" where
  "sem_inv tasks k w st \<longleftrightarrow>
     (\<exists>tr. trace (sem_world st) = trace w @ tr \<and>
        sem_value st + length (sem_woken st) + length (sem_running st) = k \<and>
        (sem_waiters st \<noteq> [] \<longrightarrow> sem_value st = 0) \<and>
        sem_waiters st = [admitted tasks k tr..<length tasks] \<and>
        sem_woken st = [dispatched tr..<admitted tasks k tr] \<and>
        dispatched tr \<le> admitted tasks k tr \<and>
        in_flight tr = int (length (sem_running st)) \<and>
        never_more_than k tr \<and>
        filter is_invoke tr = map Invoke (take (dispatched tr) tasks))"

definition slots_inv ::
  "('s, 'v) callable list \<Rightarrow> ('s, 'v) world \<Rightarrow> ('s, 'v) sem_state \<Rightarrow> bool" where
  "slots_inv tasks w st \<longleftrightarrow>
     filled tasks (sem_slots st) \<and>
     set (sem_running st) \<subseteq> {..<dispatched (since w (sem_world st))} \<and>
     (case sem_raised st of
        None \<Rightarrow>
          (\<forall>i<dispatched (since w (sem_world st)).
             i \<in> set (sem_running st) \<or> sem_slots st ! i \<noteq> None)
      | Some e \<Rightarrow> (\<exists>i<length tasks. raised_by (tasks ! i) e))"

definition pending :: "('s, 'v) sem_state \<Rightarrow> nat" where
  "pending st = 3 * length (sem_waiters st) + 2 * length (sem_woken st) + length (sem_running st)"

text \<open>
  Two units used in the examples: one that returns a value, one that raises. Both count
  their invocations in the environment.
\<close>

definition succeeding :: "string \<Rightarrow> 'v \<Rightarrow> real \<Rightarrow> (nat, 'v) callable" where
  "succeeding n v t = \<lparr>cname = n, call = (\<lambda>s. (Inr (PyVal v), Suc s)), elapsed = t\<rparr>"

definition failing :: "string \<Rightarrow> string \<Rightarrow> real \<Rightarrow> (nat, 'v) callable" where
  "failing n msg t = \<lparr>cname = n, call = (\<lambda>s. (Inl (RuntimeError msg), Suc s)), elapsed = t\<rparr>"

definition fresh :: "(nat, 'v) world" where
  "fresh = \<lparr>env = 0, trace = []\<rparr>"

section \<open>Properties of the unit invoker\<close>

lemma run_task_fst: "fst (run_task task w) = fst (call task (env w))"
  by (simp add: run_task_def complete_def dispatch_def emit_def split: prod.splits sum.splits)

lemma run_task_env: "env (snd (run_task task w)) = snd (call task (env w))"
  by (simp add: run_task_def complete_def dispatch_def emit_def logger_def
      split: prod.splits sum.splits)

lemma run_task_trace:
  "trace (snd (run_task task w)) = trace w @ Invoke task # Finish task #
     (case fst (call task (env w)) of
        Inl e \<Rightarrow> [Log ERROR (TaskError (cname task) e)]
      | Inr v \<Rightarrow> [])"
  by (simp add: run_task_def complete_def dispatch_def emit_def logger_def
      split: prod.splits sum.splits)

lemma since_append: "trace w' = trace w @ evs \<Longrightarrow> since w w' = evs"
  by (simp add: since_def)

section \<open>Properties of the timeout wrapper\<close>

text \<open>
  Claim C6. A unit that runs longer than the timeout makes \<^verbatim>\<open>run_with_timeout\<close> return
  the sentinel, which in the source is \<^verbatim>\<open>None\<close>; it does not raise. Whatever the unit
  would have returned or raised plays no part: the result, the environment and the trace
  do not depend on \<open>call task\<close>, and the last thing done is the warning.
\<close>

theorem run_with_timeout_slow:
  assumes "timeout < elapsed task"
  shows "fst (run_with_timeout task timeout w) = Inr PyNone \<and>
         env (snd (run_with_timeout task timeout w)) = env w \<and>
         since w (snd (run_with_timeout task timeout w)) =
           (if timeout \<le> 0 then [] else [Invoke task]) @
           [Log WARNING (TimedOut (cname task) timeout)]"
  using assms
  by (simp add: run_with_timeout_def wait_for_run_task_def dispatch_def logger_def emit_def
      since_def)

theorem run_with_timeout_slow_witness:
  "(1::real) < elapsed \<lparr>cname = ''slow'', call = (\<lambda>s::nat. (Inr (PyVal (7::nat)), s)), elapsed = 5\<rparr> \<and>
   fst (run_with_timeout
         \<lparr>cname = ''slow'', call = (\<lambda>s::nat. (Inr (PyVal (7::nat)), s)), elapsed = 5\<rparr> 1
         \<lparr>env = 0, trace = []\<rparr>) = Inr PyNone"
  using run_with_timeout_slow
    [of 1 "\<lparr>cname = ''slow'', call = (\<lambda>s::nat. (Inr (PyVal (7::nat)), s)), elapsed = 5\<rparr>"
        "\<lparr>env = 0, trace = []\<rparr>"]
  by simp

text \<open>
  Claim C10. A unit that finishes within the timeout and returns \<^verbatim>\<open>None\<close> makes
  \<^verbatim>\<open>run_with_timeout\<close> return \<^verbatim>\<open>None\<close>, which is also what it returns for any unit that
  exceeds its timeout: the caller cannot tell the two apart by the value.
\<close>

theorem run_with_timeout_none_ambiguous:
  assumes "elapsed task < timeout"
    and "fst (call task (env w)) = Inr PyNone"
    and "timeout' < elapsed slow"
  shows "fst (run_with_timeout task timeout w) = Inr PyNone \<and>
         fst (run_with_timeout slow timeout' w') = fst (run_with_timeout task timeout w)"
proof -
  have slow: "fst (run_with_timeout slow timeout' w') = Inr PyNone"
    using assms(3) by (simp add: run_with_timeout_def wait_for_run_task_def)
  have "fst (run_task task w) = Inr PyNone"
    using assms(2) by (simp add: run_task_fst)
  then obtain w1 where "run_task task w = (Inr PyNone, w1)"
    by (metis prod.collapse)
  then have "fst (run_with_timeout task timeout w) = Inr PyNone"
    using assms(1) by (simp add: run_with_timeout_def wait_for_run_task_def)
  with slow show ?thesis by simp
qed

theorem run_with_timeout_none_ambiguous_witness:
  "fst (run_with_timeout
         \<lparr>cname = ''quick'', call = (\<lambda>s::nat. (Inr (PyNone :: nat pyval), s)), elapsed = 1\<rparr> 2
         \<lparr>env = 0, trace = []\<rparr>) = Inr PyNone \<and>
   fst (run_with_timeout
         \<lparr>cname = ''slow'', call = (\<lambda>s::nat. (Inr (PyVal (7::nat)), s)), elapsed = 5\<rparr> 2
         \<lparr>env = 0, trace = []\<rparr>) =
   fst (run_with_timeout
         \<lparr>cname = ''quick'', call = (\<lambda>s::nat. (Inr (PyNone :: nat pyval), s)), elapsed = 1\<rparr> 2
         \<lparr>env = 0, trace = []\<rparr>)"
  using run_with_timeout_none_ambiguous
    [of "\<lparr>cname = ''quick'', call = (\<lambda>s::nat. (Inr (PyNone :: nat pyval), s)), elapsed = 1\<rparr>" 2
        "\<lparr>env = 0, trace = []\<rparr>" 2
        "\<lparr>cname = ''slow'', call = (\<lambda>s::nat. (Inr (PyVal (7::nat)), s)), elapsed = 5\<rparr>"
        "\<lparr>env = 0, trace = []\<rparr>"]
  by simp

section \<open>Properties of the retry wrapper\<close>

lemma retry_loop_failing:
  assumes fails: "\<forall>s. isl (fst (call task s))"
  shows "a < N \<Longrightarrow> k = nat (N - a) \<Longrightarrow>
     fst (retry_loop task N d a w) = fst (call task (((snd \<circ> call task) ^^ (k - 1)) (env w))) \<and>
     env (snd (retry_loop task N d a w)) = ((snd \<circ> call task) ^^ k) (env w) \<and>
     (\<exists>evs. trace (snd (retry_loop task N d a w)) = trace w @ evs \<and>
        schedule evs = Invoke task # concat (replicate (k - 1) [Sleep d, Invoke task]))"
proof (induction k arbitrary: a w)
  case 0
  then show ?case by simp
next
  case (Suc k)
  obtain e where e: "fst (call task (env w)) = Inl e"
    using fails by (metis isl_def)
  obtain w1 where w1: "run_task task w = (Inl e, w1)"
    using e run_task_fst[of task w] by (metis prod.collapse)
  have env1: "env w1 = snd (call task (env w))"
    using run_task_env[of task w] w1 by simp
  have tr1: "trace w1 = trace w @ [Invoke task, Finish task, Log ERROR (TaskError (cname task) e)]"
    using run_task_trace[of task w] w1 e by simp
  show ?case
  proof (cases "a = N - 1")
    case True
    then have k0: "k = 0" using Suc.prems by simp
    have "retry_loop task N d a w = (Inl e, logger ERROR (RetryExhausted (cname task) N e) w1)"
      using Suc.prems True w1 by (subst retry_loop.simps) simp
    then show ?thesis using k0 e env1 tr1
      by (simp add: logger_def emit_def schedule_def)
  next
    case False
    let ?w2 = "sleep d (logger WARNING (Retrying (cname task) (a + 1) N d) w1)"
    have step: "retry_loop task N d a w = retry_loop task N d (a + 1) ?w2"
      using Suc.prems False w1 by (subst retry_loop.simps) simp
    have a1: "a + 1 < N" "k = nat (N - (a + 1))" using Suc.prems False by auto
    have kpos: "0 < k" using a1 by simp
    have env2: "env ?w2 = snd (call task (env w))"
      using env1 by (simp add: sleep_def logger_def emit_def)
    have tr2: "trace ?w2 = trace w @ [Invoke task, Finish task,
        Log ERROR (TaskError (cname task) e),
        Log WARNING (Retrying (cname task) (a + 1) N d), Sleep d]"
      using tr1 by (simp add: sleep_def logger_def emit_def)
    from Suc.IH[OF a1, of ?w2] obtain evs where
      r: "fst (retry_loop task N d (a + 1) ?w2) =
            fst (call task (((snd \<circ> call task) ^^ (k - 1)) (env ?w2)))"
      and re: "env (snd (retry_loop task N d (a + 1) ?w2)) = ((snd \<circ> call task) ^^ k) (env ?w2)"
      and rt: "trace (snd (retry_loop task N d (a + 1) ?w2)) = trace ?w2 @ evs"
      and rs: "schedule evs = Invoke task # concat (replicate (k - 1) [Sleep d, Invoke task])"
      by blast
    have f1: "((snd \<circ> call task) ^^ (k - 1)) (env ?w2) =
        ((snd \<circ> call task) ^^ (Suc k - 1)) (env w)"
      using kpos env2 by (cases k) (simp_all add: funpow_swap1)
    have f2: "((snd \<circ> call task) ^^ k) (env ?w2) = ((snd \<circ> call task) ^^ Suc k) (env w)"
      using env2 by (simp add: funpow_swap1)
    have "schedule ([Invoke task, Finish task, Log ERROR (TaskError (cname task) e),
        Log WARNING (Retrying (cname task) (a + 1) N d), Sleep d] @ evs)
        = Invoke task # concat (replicate (Suc k - 1) [Sleep d, Invoke task])"
      using rs kpos by (cases k) (simp_all add: schedule_def)
    then show ?thesis using step r re rt f1 f2 tr2 by (metis append.assoc)
  qed
qed

lemma invokes_of_schedule: "filter is_invoke (schedule evs) = filter is_invoke evs"
  by (induction evs) (auto simp: schedule_def)

lemma invokes_of_attempts:
  "filter is_invoke (Invoke task # concat (replicate n [Sleep d, Invoke task])) =
     replicate (Suc n) (Invoke task)"
  by (induction n) simp_all

text \<open>
  Claim C5. A unit that fails whenever it is invoked, retried with \<open>max_retries = N \<ge> 1\<close>:
  the unit is dispatched exactly \<open>N\<close> times, the only sleeps are one of the fixed delay
  between each two consecutive attempts, and what \<^verbatim>\<open>run_with_retry\<close> raises is the exception
  of the last attempt, the \<open>N\<close>-th invocation of the unit.
\<close>

theorem run_with_retry_always_failing:
  assumes "1 \<le> N" and "\<forall>s. isl (fst (call task s))"
  shows "isl (fst (run_with_retry task N d w)) \<and>
         fst (run_with_retry task N d w) =
           fst (call task (((snd \<circ> call task) ^^ (nat N - 1)) (env w))) \<and>
         filter is_invoke (since w (snd (run_with_retry task N d w))) =
           replicate (nat N) (Invoke task) \<and>
         schedule (since w (snd (run_with_retry task N d w))) =
           Invoke task # concat (replicate (nat N - 1) [Sleep d, Invoke task])"
proof -
  let ?r = "run_with_retry task N d w"
  from retry_loop_failing[OF assms(2), of 0 N "nat N" d w] assms(1) obtain evs where
    r: "fst ?r = fst (call task (((snd \<circ> call task) ^^ (nat N - 1)) (env w)))"
    and t: "trace (snd ?r) = trace w @ evs"
    and s: "schedule evs = Invoke task # concat (replicate (nat N - 1) [Sleep d, Invoke task])"
    unfolding run_with_retry_def by auto
  have ev: "since w (snd ?r) = evs" using t by (rule since_append)
  have "filter is_invoke evs = replicate (Suc (nat N - 1)) (Invoke task)"
    using s invokes_of_schedule[of evs] invokes_of_attempts[of task "nat N - 1" d] by simp
  moreover have "Suc (nat N - 1) = nat N" using assms(1) by simp
  ultimately have "filter is_invoke evs = replicate (nat N) (Invoke task)" by simp
  then show ?thesis using r s ev assms(2) by simp
qed

theorem run_with_retry_always_failing_witness:
  "(1::int) \<le> 3 \<and>
   (\<forall>s. isl (fst (call \<lparr>cname = ''f'', call = (\<lambda>s::nat. (Inl (RuntimeError ''boom''), Suc s)),
                        elapsed = 1\<rparr> s))) \<and>
   fst (run_with_retry
         \<lparr>cname = ''f'', call = (\<lambda>s::nat. (Inl (RuntimeError ''boom'') :: nat outcome, Suc s)),
          elapsed = 1\<rparr> 3 2 \<lparr>env = 0, trace = []\<rparr>) = Inl (RuntimeError ''boom'') \<and>
   length (filter is_invoke (since \<lparr>env = 0, trace = []\<rparr> (snd (run_with_retry
         \<lparr>cname = ''f'', call = (\<lambda>s::nat. (Inl (RuntimeError ''boom'') :: nat outcome, Suc s)),
          elapsed = 1\<rparr> 3 2 \<lparr>env = 0, trace = []\<rparr>)))) = 3"
  using run_with_retry_always_failing
    [of 3 "\<lparr>cname = ''f'', call = (\<lambda>s::nat. (Inl (RuntimeError ''boom'') :: nat outcome, Suc s)),
            elapsed = 1\<rparr>" 2 "\<lparr>env = 0, trace = []\<rparr>"]
  by simp

section \<open>Properties of the priority scheduler\<close>

lemma sorted_reverse_mset: "mset (sorted_reverse key xs) = mset xs"
  by (simp add: sorted_reverse_def)

lemma sorted_reverse_descending:
  "sorted_wrt (\<lambda>a b. key b \<le> key a) (sorted_reverse key xs)"
proof -
  have "sorted_wrt (\<le>) (map key (sort_key key (rev xs)))" by simp
  then have "sorted_wrt (\<lambda>a b. key a \<le> key b) (sort_key key (rev xs))"
    by (simp add: sorted_wrt_map)
  then show ?thesis
    by (simp add: sorted_reverse_def sorted_wrt_rev)
qed

lemma sorted_reverse_stable:
  "filter (\<lambda>x. key x = k) (sorted_reverse key xs) = filter (\<lambda>x. key x = k) xs"
proof -
  have "filter (\<lambda>x. key x = k) (sort_key key (rev xs)) = filter (\<lambda>x. key x = k) (rev xs)"
    by (rule sort_key_stable)
  then show ?thesis
    by (simp add: sorted_reverse_def rev_filter[symmetric])
qed

lemma priority_loop_ok:
  "\<forall>ti\<in>set tis. \<forall>s. \<not> isl (fst (call (task_of ti) s)) \<Longrightarrow>
   \<exists>rs w'. priority_loop tis acc w = (Inr (acc @ rs), w') \<and> length rs = length tis \<and>
     (\<forall>i<length tis. \<exists>s. fst (call (task_of (tis ! i)) s) = Inr (rs ! i)) \<and>
     trace w' = trace w @ sequential (map task_of tis)"
proof (induction tis arbitrary: acc w)
  case Nil
  then show ?case by (simp add: sequential_def)
next
  case (Cons ti tis)
  from Cons.prems obtain v where v: "fst (call (task_of ti) (env w)) = Inr v"
    by (metis isl_def list.set_intros(1) sum.collapse(2))
  obtain w1 where w1: "run_task (task_of ti) w = (Inr v, w1)"
    using v run_task_fst[of "task_of ti" w] by (metis prod.collapse)
  have tr1: "trace w1 = trace w @ [Invoke (task_of ti), Finish (task_of ti)]"
    using run_task_trace[of "task_of ti" w] w1 v by simp
  from Cons.IH[of "acc @ [v]" w1] Cons.prems obtain rs w' where
    l: "priority_loop tis (acc @ [v]) w1 = (Inr ((acc @ [v]) @ rs), w')"
    and n: "length rs = length tis"
    and p: "\<forall>i<length tis. \<exists>s. fst (call (task_of (tis ! i)) s) = Inr (rs ! i)"
    and t: "trace w' = trace w1 @ sequential (map task_of tis)"
    by auto
  have "priority_loop (ti # tis) acc w = (Inr (acc @ (v # rs)), w')"
    using w1 l by simp
  moreover have "length (v # rs) = length (ti # tis)" using n by simp
  moreover have
    "\<forall>i<length (ti # tis). \<exists>s. fst (call (task_of ((ti # tis) ! i)) s) = Inr ((v # rs) ! i)"
  proof (intro allI impI)
    fix i assume "i < length (ti # tis)"
    then show "\<exists>s. fst (call (task_of ((ti # tis) ! i)) s) = Inr ((v # rs) ! i)"
      using v p by (cases i) auto
  qed
  moreover have "trace w' = trace w @ sequential (map task_of (ti # tis))"
    using t tr1 by (simp add: sequential_def)
  ultimately show ?case by blast
qed

lemma priority_loop_prefix:
  "\<exists>n\<le>length tis. \<exists>evs. trace (snd (priority_loop tis acc w)) = trace w @ evs \<and>
      filter is_invoke evs = map (\<lambda>ti. Invoke (task_of ti)) (take n tis)"
proof (induction tis arbitrary: acc w)
  case Nil
  then show ?case by simp
next
  case (Cons ti tis)
  obtain r w1 where w1: "run_task (task_of ti) w = (r, w1)" by (metis prod.collapse)
  have "\<exists>evs. trace w1 = trace w @ Invoke (task_of ti) # evs \<and> filter is_invoke evs = []"
    using run_task_trace[of "task_of ti" w] w1 by (auto split: sum.splits)
  then obtain ev1 where
    ev1: "trace w1 = trace w @ Invoke (task_of ti) # ev1" "filter is_invoke ev1 = []"
    by blast
  show ?case
  proof (cases r)
    case (Inl e)
    then have "priority_loop (ti # tis) acc w = (Inl e, w1)" using w1 by simp
    then show ?thesis using ev1
      by (intro exI[of _ 1] conjI exI[of _ "Invoke (task_of ti) # ev1"]) simp_all
  next
    case (Inr v)
    then have st: "priority_loop (ti # tis) acc w = priority_loop tis (acc @ [v]) w1"
      using w1 by simp
    from Cons.IH[of "acc @ [v]" w1] obtain n evs where
      n: "n \<le> length tis"
      and t: "trace (snd (priority_loop tis (acc @ [v]) w1)) = trace w1 @ evs"
      and f: "filter is_invoke evs = map (\<lambda>ti. Invoke (task_of ti)) (take n tis)" by blast
    show ?thesis using st n t f ev1
      by (intro exI[of _ "Suc n"] conjI exI[of _ "Invoke (task_of ti) # ev1 @ evs"]) simp_all
  qed
qed

lemma priority_loop_cases:
  "(\<exists>rs w'. priority_loop tis acc w = (Inr (acc @ rs), w') \<and>
       list_all2 returned_by (map task_of tis) rs \<and>
       trace w' = trace w @ sequential (map task_of tis)) \<or>
   (\<exists>pre ti post rs e w'. tis = pre @ ti # post \<and>
       priority_loop tis acc w = (Inl e, w') \<and>
       list_all2 returned_by (map task_of pre) rs \<and> raised_by (task_of ti) e \<and>
       trace w' = trace w @ aborted (map task_of pre) (task_of ti) e)"
proof (induction tis arbitrary: acc w)
  case Nil
  then show ?case by (simp add: sequential_def)
next
  case (Cons ti tis)
  obtain r w1 where w1: "run_task (task_of ti) w = (r, w1)" by (metis prod.collapse)
  have c: "fst (call (task_of ti) (env w)) = r"
    using w1 run_task_fst[of "task_of ti" w] by simp
  show ?case
  proof (cases r)
    case (Inl e)
    have tr: "trace w1 = trace w @ aborted (map task_of []) (task_of ti) e"
      using run_task_trace[of "task_of ti" w] w1 c Inl by (simp add: aborted_def sequential_def)
    have rb: "raised_by (task_of ti) e" using c Inl unfolding raised_by_def by blast
    have l: "priority_loop (ti # tis) acc w = (Inl e, w1)" using w1 Inl by simp
    have "\<exists>pre ti' post rs e w'. ti # tis = pre @ ti' # post \<and>
       priority_loop (ti # tis) acc w = (Inl e, w') \<and>
       list_all2 returned_by (map task_of pre) rs \<and> raised_by (task_of ti') e \<and>
       trace w' = trace w @ aborted (map task_of pre) (task_of ti') e"
    proof (intro exI conjI)
      show "ti # tis = [] @ ti # tis" by simp
      show "priority_loop (ti # tis) acc w = (Inl e, w1)" by (rule l)
      show "list_all2 returned_by (map task_of []) []" by simp
      show "raised_by (task_of ti) e" by (rule rb)
      show "trace w1 = trace w @ aborted (map task_of []) (task_of ti) e" by (rule tr)
    qed
    then show ?thesis by (rule disjI2)
  next
    case (Inr v)
    have tr1: "trace w1 = trace w @ [Invoke (task_of ti), Finish (task_of ti)]"
      using run_task_trace[of "task_of ti" w] w1 c Inr by simp
    have rv: "returned_by (task_of ti) v" using c Inr unfolding returned_by_def by blast
    have st: "priority_loop (ti # tis) acc w = priority_loop tis (acc @ [v]) w1"
      using w1 Inr by simp
    from Cons.IH[of "acc @ [v]" w1] show ?thesis
    proof (elim disjE exE conjE)
      fix rs w'
      assume a: "priority_loop tis (acc @ [v]) w1 = (Inr ((acc @ [v]) @ rs), w')"
        and b: "list_all2 returned_by (map task_of tis) rs"
        and t: "trace w' = trace w1 @ sequential (map task_of tis)"
      have "\<exists>rs w'. priority_loop (ti # tis) acc w = (Inr (acc @ rs), w') \<and>
         list_all2 returned_by (map task_of (ti # tis)) rs \<and>
         trace w' = trace w @ sequential (map task_of (ti # tis))"
      proof (intro exI conjI)
        show "priority_loop (ti # tis) acc w = (Inr (acc @ (v # rs)), w')" using st a by simp
        show "list_all2 returned_by (map task_of (ti # tis)) (v # rs)" using rv b by simp
        show "trace w' = trace w @ sequential (map task_of (ti # tis))"
          using t tr1 by (simp add: sequential_def)
      qed
      then show ?thesis by (rule disjI1)
    next
      fix pre ti' post rs e w'
      assume s: "tis = pre @ ti' # post"
        and a: "priority_loop tis (acc @ [v]) w1 = (Inl e, w')"
        and b: "list_all2 returned_by (map task_of pre) rs"
        and rb: "raised_by (task_of ti') e"
        and t: "trace w' = trace w1 @ aborted (map task_of pre) (task_of ti') e"
      have "\<exists>pre ti' post rs e w'. ti # tis = pre @ ti' # post \<and>
         priority_loop (ti # tis) acc w = (Inl e, w') \<and>
         list_all2 returned_by (map task_of pre) rs \<and> raised_by (task_of ti') e \<and>
         trace w' = trace w @ aborted (map task_of pre) (task_of ti') e"
      proof (intro exI conjI)
        show "ti # tis = (ti # pre) @ ti' # post" using s by simp
        show "priority_loop (ti # tis) acc w = (Inl e, w')" using st a by simp
        show "list_all2 returned_by (map task_of (ti # pre)) (v # rs)" using rv b by simp
        show "raised_by (task_of ti') e" by (rule rb)
        show "trace w' = trace w @ aborted (map task_of (ti # pre)) (task_of ti') e"
          using t tr1 by (simp add: aborted_def sequential_def)
      qed
      then show ?thesis by (rule disjI2)
    qed
  qed
qed

text \<open>
  Claim C7, as the code has it. The order in which \<^verbatim>\<open>run_with_priority\<close> takes the
  descriptors is a rearrangement of the input with priorities never increasing and
  descriptors of equal priority in submission order. The run goes through that order
  strictly sequentially and has one of two outcomes. Either every unit returns: all units
  were run, each finished before the next was dispatched, and the list returned holds
  their results in that order. Or some unit raises: the units before it in the order ran
  and finished, it is the last unit dispatched, \<^verbatim>\<open>run_with_priority\<close> raises its exception
  and returns no results. A unit that always raises forces the second outcome, units that
  always succeed the first.
\<close>

theorem run_with_priority_order:
  "mset (sorted_reverse priority tasks) = mset tasks \<and>
   sorted_wrt (\<lambda>a b. priority b \<le> priority a) (sorted_reverse priority tasks) \<and>
   (\<forall>k. filter (\<lambda>ti. priority ti = k) (sorted_reverse priority tasks) =
        filter (\<lambda>ti. priority ti = k) tasks) \<and>
   (\<exists>n\<le>length tasks. filter is_invoke (since w (snd (run_with_priority tasks w))) =
        map (\<lambda>ti. Invoke (task_of ti)) (take n (sorted_reverse priority tasks))) \<and>
   ((\<exists>rs. fst (run_with_priority tasks w) = Inr rs \<and>
          list_all2 returned_by (map task_of (sorted_reverse priority tasks)) rs \<and>
          since w (snd (run_with_priority tasks w)) =
            sequential (map task_of (sorted_reverse priority tasks))) \<or>
    (\<exists>pre ti post rs e. sorted_reverse priority tasks = pre @ ti # post \<and>
          fst (run_with_priority tasks w) = Inl e \<and>
          list_all2 returned_by (map task_of pre) rs \<and> raised_by (task_of ti) e \<and>
          since w (snd (run_with_priority tasks w)) =
            aborted (map task_of pre) (task_of ti) e)) \<and>
   ((\<exists>ti\<in>set tasks. \<forall>s. isl (fst (call (task_of ti) s))) \<longrightarrow>
      isl (fst (run_with_priority tasks w))) \<and>
   ((\<forall>ti\<in>set tasks. \<forall>s. \<not> isl (fst (call (task_of ti) s))) \<longrightarrow>
      (\<exists>rs. fst (run_with_priority tasks w) = Inr rs \<and> length rs = length tasks \<and>
         (\<forall>i<length tasks.
            \<exists>s. fst (call (task_of (sorted_reverse priority tasks ! i)) s) = Inr (rs ! i)) \<and>
         since w (snd (run_with_priority tasks w)) =
           sequential (map task_of (sorted_reverse priority tasks))))"
proof -
  let ?order = "sorted_reverse priority tasks"
  let ?run = "run_with_priority tasks w"
  have len: "length ?order = length tasks"
    by (simp add: sorted_reverse_def)
  have seto: "set ?order = set tasks"
    by (simp add: sorted_reverse_def)
  from priority_loop_prefix[of ?order "[]" w] obtain n evs where
    n: "n \<le> length ?order"
    and t: "trace (snd ?run) = trace w @ evs"
    and f: "filter is_invoke evs = map (\<lambda>ti. Invoke (task_of ti)) (take n ?order)"
    unfolding run_with_priority_def by blast
  have pre: "\<exists>n\<le>length tasks. filter is_invoke (since w (snd ?run)) =
        map (\<lambda>ti. Invoke (task_of ti)) (take n ?order)"
    using n f since_append[OF t] len by auto
  let ?A = "\<exists>rs. fst ?run = Inr rs \<and> list_all2 returned_by (map task_of ?order) rs \<and>
          since w (snd ?run) = sequential (map task_of ?order)"
  let ?B = "\<exists>pre ti post rs e. ?order = pre @ ti # post \<and> fst ?run = Inl e \<and>
          list_all2 returned_by (map task_of pre) rs \<and> raised_by (task_of ti) e \<and>
          since w (snd ?run) = aborted (map task_of pre) (task_of ti) e"
  have cases: "?A \<or> ?B"
    using priority_loop_cases[of ?order "[]" w] unfolding run_with_priority_def
  proof (elim disjE exE conjE)
    fix rs w'
    assume a: "priority_loop ?order [] w = (Inr ([] @ rs), w')"
      and b: "list_all2 returned_by (map task_of ?order) rs"
      and tr: "trace w' = trace w @ sequential (map task_of ?order)"
    have "\<exists>rs. fst (priority_loop ?order [] w) = Inr rs \<and>
          list_all2 returned_by (map task_of ?order) rs \<and>
          since w (snd (priority_loop ?order [] w)) = sequential (map task_of ?order)"
    proof (intro exI conjI)
      show "fst (priority_loop ?order [] w) = Inr rs" using a by simp
      show "list_all2 returned_by (map task_of ?order) rs" by (rule b)
      show "since w (snd (priority_loop ?order [] w)) = sequential (map task_of ?order)"
        using a since_append[OF tr] by simp
    qed
    then show "(\<exists>rs. fst (priority_loop ?order [] w) = Inr rs \<and>
          list_all2 returned_by (map task_of ?order) rs \<and>
          since w (snd (priority_loop ?order [] w)) = sequential (map task_of ?order)) \<or>
      (\<exists>pre ti post rs e. ?order = pre @ ti # post \<and>
          fst (priority_loop ?order [] w) = Inl e \<and>
          list_all2 returned_by (map task_of pre) rs \<and> raised_by (task_of ti) e \<and>
          since w (snd (priority_loop ?order [] w)) = aborted (map task_of pre) (task_of ti) e)"
      by (rule disjI1)
  next
    fix pre ti post rs e w'
    assume s: "?order = pre @ ti # post"
      and a: "priority_loop ?order [] w = (Inl e, w')"
      and b: "list_all2 returned_by (map task_of pre) rs"
      and rb: "raised_by (task_of ti) e"
      and tr: "trace w' = trace w @ aborted (map task_of pre) (task_of ti) e"
    have "\<exists>pre ti post rs e. ?order = pre @ ti # post \<and>
          fst (priority_loop ?order [] w) = Inl e \<and>
          list_all2 returned_by (map task_of pre) rs \<and> raised_by (task_of ti) e \<and>
          since w (snd (priority_loop ?order [] w)) = aborted (map task_of pre) (task_of ti) e"
    proof (intro exI conjI)
      show "?order = pre @ ti # post" by (rule s)
      show "fst (priority_loop ?order [] w) = Inl e" using a by simp
      show "list_all2 returned_by (map task_of pre) rs" by (rule b)
      show "raised_by (task_of ti) e" by (rule rb)
      show "since w (snd (priority_loop ?order [] w)) = aborted (map task_of pre) (task_of ti) e"
        using a since_append[OF tr] by simp
    qed
    then show "(\<exists>rs. fst (priority_loop ?order [] w) = Inr rs \<and>
          list_all2 returned_by (map task_of ?order) rs \<and>
          since w (snd (priority_loop ?order [] w)) = sequential (map task_of ?order)) \<or>
      (\<exists>pre ti post rs e. ?order = pre @ ti # post \<and>
          fst (priority_loop ?order [] w) = Inl e \<and>
          list_all2 returned_by (map task_of pre) rs \<and> raised_by (task_of ti) e \<and>
          since w (snd (priority_loop ?order [] w)) = aborted (map task_of pre) (task_of ti) e)"
      by (rule disjI2)
  qed
  have fails: "isl (fst ?run)" if bad: "\<exists>ti\<in>set tasks. \<forall>s. isl (fst (call (task_of ti) s))"
  proof -
    from bad obtain ti where ti: "ti \<in> set tasks" and fl: "\<forall>s. isl (fst (call (task_of ti) s))"
      by blast
    have "\<not> ?A"
    proof
      assume ?A
      then obtain rs where la: "list_all2 returned_by (map task_of ?order) rs" by blast
      from ti seto obtain i where i: "i < length ?order" "?order ! i = ti"
        by (metis in_set_conv_nth)
      with la have "returned_by (task_of ti) (rs ! i)"
        by (auto simp: list_all2_conv_all_nth)
      then show False using fl unfolding returned_by_def by (metis sum.disc(2))
    qed
    with cases have ?B by blast
    then obtain e where "fst ?run = Inl e" by blast
    then show ?thesis by simp
  qed
  have full: "\<exists>rs. fst ?run = Inr rs \<and> length rs = length tasks \<and>
         (\<forall>i<length tasks. \<exists>s. fst (call (task_of (?order ! i)) s) = Inr (rs ! i)) \<and>
         since w (snd ?run) = sequential (map task_of ?order)"
    if ok: "\<forall>ti\<in>set tasks. \<forall>s. \<not> isl (fst (call (task_of ti) s))"
  proof -
    from ok seto have "\<forall>ti\<in>set ?order. \<forall>s. \<not> isl (fst (call (task_of ti) s))" by simp
    from priority_loop_ok[OF this, of "[]" w] len obtain rs w' where
      r: "?run = (Inr rs, w')" and l: "length rs = length tasks"
      and p: "\<forall>i<length tasks. \<exists>s. fst (call (task_of (?order ! i)) s) = Inr (rs ! i)"
      and tr: "trace w' = trace w @ sequential (map task_of ?order)"
      unfolding run_with_priority_def by auto
    have "since w (snd ?run) = sequential (map task_of ?order)"
      using r since_append[OF tr] by simp
    then show ?thesis using r l p by simp
  qed
  show ?thesis
  proof (intro conjI impI allI)
    show "mset ?order = mset tasks" by (rule sorted_reverse_mset)
    show "sorted_wrt (\<lambda>a b. priority b \<le> priority a) ?order" by (rule sorted_reverse_descending)
    show "filter (\<lambda>ti. priority ti = k) ?order = filter (\<lambda>ti. priority ti = k) tasks" for k
      by (rule sorted_reverse_stable)
    show "\<exists>n\<le>length tasks. filter is_invoke (since w (snd ?run)) =
        map (\<lambda>ti. Invoke (task_of ti)) (take n ?order)" by (rule pre)
    show "?A \<or> ?B" by (rule cases)
    show "isl (fst ?run)" if "\<exists>ti\<in>set tasks. \<forall>s. isl (fst (call (task_of ti) s))"
      using that by (rule fails)
    show "\<exists>rs. fst ?run = Inr rs \<and> length rs = length tasks \<and>
         (\<forall>i<length tasks. \<exists>s. fst (call (task_of (?order ! i)) s) = Inr (rs ! i)) \<and>
         since w (snd ?run) = sequential (map task_of ?order)"
      if "\<forall>ti\<in>set tasks. \<forall>s. \<not> isl (fst (call (task_of ti) s))"
      using that by (rule full)
  qed
qed

theorem run_with_priority_order_witness:
  "(\<forall>s. \<not> isl (fst (call (succeeding ''X'' (1::nat) 1) s))) \<and>
   (\<forall>s. \<not> isl (fst (call (succeeding ''Y'' (2::nat) 1) s))) \<and>
   since fresh (snd (run_with_priority
         [\<lparr>task_of = succeeding ''X'' (1::nat) 1, priority = 1\<rparr>,
          \<lparr>task_of = succeeding ''Y'' 2 1, priority = 5\<rparr>] fresh)) =
     sequential (map task_of (sorted_reverse priority
         [\<lparr>task_of = succeeding ''X'' (1::nat) 1, priority = 1\<rparr>,
          \<lparr>task_of = succeeding ''Y'' 2 1, priority = 5\<rparr>])) \<and>
   fst (run_with_priority
         [\<lparr>task_of = succeeding ''X'' (1::nat) 1, priority = 1\<rparr>,
          \<lparr>task_of = succeeding ''Y'' 2 1, priority = 5\<rparr>] fresh) = Inr [PyVal 2, PyVal 1] \<and>
   since fresh (snd (run_with_priority
         [\<lparr>task_of = succeeding ''X'' (1::nat) 1, priority = 1\<rparr>,
          \<lparr>task_of = succeeding ''Y'' 2 1, priority = 5\<rparr>] fresh)) =
     [Invoke (succeeding ''Y'' 2 1), Finish (succeeding ''Y'' 2 1),
      Invoke (succeeding ''X'' 1 1), Finish (succeeding ''X'' 1 1)]"
proof -
  let ?tasks = "[\<lparr>task_of = succeeding ''X'' (1::nat) 1, priority = 1\<rparr>,
          \<lparr>task_of = succeeding ''Y'' 2 1, priority = 5\<rparr>]"
  have x: "\<forall>s. \<not> isl (fst (call (succeeding ''X'' (1::nat) 1) s))"
    and y: "\<forall>s. \<not> isl (fst (call (succeeding ''Y'' (2::nat) 1) s))"
    by (simp_all add: succeeding_def)
  have ok: "\<forall>ti\<in>set ?tasks. \<forall>s. \<not> isl (fst (call (task_of ti) s))"
    by (simp add: succeeding_def)
  have "(\<forall>ti\<in>set ?tasks. \<forall>s. \<not> isl (fst (call (task_of ti) s))) \<longrightarrow>
      (\<exists>rs. fst (run_with_priority ?tasks fresh) = Inr rs \<and> length rs = length ?tasks \<and>
         (\<forall>i<length ?tasks.
            \<exists>s. fst (call (task_of (sorted_reverse priority ?tasks ! i)) s) = Inr (rs ! i)) \<and>
         since fresh (snd (run_with_priority ?tasks fresh)) =
           sequential (map task_of (sorted_reverse priority ?tasks)))"
    using run_with_priority_order[of ?tasks fresh] by (elim conjE)
  then have "\<exists>rs. fst (run_with_priority ?tasks fresh) = Inr rs \<and> length rs = length ?tasks \<and>
         (\<forall>i<length ?tasks.
            \<exists>s. fst (call (task_of (sorted_reverse priority ?tasks ! i)) s) = Inr (rs ! i)) \<and>
         since fresh (snd (run_with_priority ?tasks fresh)) =
           sequential (map task_of (sorted_reverse priority ?tasks))"
    using ok by (rule mp)
  then have sq: "since fresh (snd (run_with_priority ?tasks fresh)) =
           sequential (map task_of (sorted_reverse priority ?tasks))"
    by (elim exE conjE)
  have r: "fst (run_with_priority ?tasks fresh) = Inr [PyVal 2, PyVal 1]"
    by (simp add: run_with_priority_def sorted_reverse_def run_task_def complete_def dispatch_def
        emit_def fresh_def succeeding_def)
  have t: "since fresh (snd (run_with_priority ?tasks fresh)) =
     [Invoke (succeeding ''Y'' 2 1), Finish (succeeding ''Y'' 2 1),
      Invoke (succeeding ''X'' 1 1), Finish (succeeding ''X'' 1 1)]"
    by (simp add: run_with_priority_def sorted_reverse_def run_task_def complete_def dispatch_def
        emit_def since_def fresh_def succeeding_def)
  show ?thesis
    by (intro conjI; fact x y sq r t)
qed

text \<open>
  The claim as worded, for every collection of descriptors, does not hold: with \<open>Y\<close> of
  priority 5 raising, \<open>X\<close> of priority 1 is never run and no list is returned.
\<close>

theorem run_with_priority_failure_counterexample:
  "fst (run_with_priority
         [\<lparr>task_of = succeeding ''X'' (1::nat) 1, priority = 1\<rparr>,
          \<lparr>task_of = failing ''Y'' ''boom'' 1, priority = 5\<rparr>] fresh)
     = Inl (RuntimeError ''boom'') \<and>
   filter is_invoke (since fresh (snd (run_with_priority
         [\<lparr>task_of = succeeding ''X'' (1::nat) 1, priority = 1\<rparr>,
          \<lparr>task_of = failing ''Y'' ''boom'' 1, priority = 5\<rparr>] fresh)))
     = [Invoke (failing ''Y'' ''boom'' 1)]"
  by (simp add: run_with_priority_def sorted_reverse_def run_task_def complete_def dispatch_def
      emit_def logger_def since_def fresh_def succeeding_def failing_def)

section \<open>Properties of the parallel runner\<close>

lemma complete_fst: "fst (complete u w) = fst (call u (env w))"
  by (simp add: complete_def split: prod.splits sum.splits)

lemma complete_trace:
  "\<exists>evs. trace (snd (complete u w)) = trace w @ evs \<and> schedule evs = []"
  by (simp add: complete_def emit_def logger_def schedule_def split: prod.splits sum.splits)

lemma fold_dispatch_trace: "trace (fold dispatch us w) = trace w @ map Invoke us"
  by (induction us arbitrary: w) (simp_all add: dispatch_def emit_def)

lemma fold_dispatch_env: "env (fold dispatch us w) = env w"
  by (induction us arbitrary: w) (simp_all add: dispatch_def emit_def)

lemma schedule_append: "schedule (xs @ ys) = schedule xs @ schedule ys"
  by (simp add: schedule_def)

lemma schedule_invokes: "schedule (map Invoke us) = map Invoke us"
  by (induction us) (simp_all add: schedule_def)

lemma settle_trace:
  "\<exists>evs. trace (snd (settle us is slots w)) = trace w @ evs \<and> schedule evs = []"
proof (induction "is" arbitrary: slots w)
  case Nil
  then show ?case by (simp add: schedule_def)
next
  case (Cons i rest)
  obtain r w1 where c: "complete (us ! i) w = (r, w1)" by (metis prod.collapse)
  from complete_trace[of "us ! i" w] c obtain ev1 where
    ev1: "trace w1 = trace w @ ev1" "schedule ev1 = []" by auto
  show ?case
  proof (cases r)
    case (Inl e)
    then show ?thesis using c ev1 by simp
  next
    case (Inr v)
    from Cons.IH[of "slots[i := Some v]" w1] obtain evs where
      "trace (snd (settle us rest (slots[i := Some v]) w1)) = trace w1 @ evs" "schedule evs = []"
      by blast
    then show ?thesis using c Inr ev1
      by (intro exI[of _ "ev1 @ evs"]) (simp add: schedule_append)
  qed
qed

lemma settle_ok:
  assumes "\<forall>u\<in>set us. \<forall>s. \<not> isl (fst (call u s))"
  shows "set is \<subseteq> {..<length us} \<Longrightarrow> filled us slots \<Longrightarrow>
     \<exists>slots' w'. settle us is slots w = (Inr slots', w') \<and> filled us slots' \<and>
       (\<forall>j<length us. (j \<in> set is \<or> slots ! j \<noteq> None) \<longrightarrow> slots' ! j \<noteq> None)"
proof (induction "is" arbitrary: slots w)
  case Nil
  then show ?case by simp
next
  case (Cons i rest)
  have i: "i < length us" using Cons.prems(1) by simp
  then have "us ! i \<in> set us" by simp
  with assms obtain v where v: "fst (call (us ! i) (env w)) = Inr v"
    by (metis isl_def sum.collapse(2))
  obtain w1 where c: "complete (us ! i) w = (Inr v, w1)"
    using v complete_fst[of "us ! i" w] by (metis prod.collapse)
  have f: "filled us (slots[i := Some v])"
    using Cons.prems(2) v i unfolding filled_def
    by (auto simp: nth_list_update)
  from Cons.IH[OF _ f, of w1] Cons.prems(1) obtain slots' w' where
    s: "settle us rest (slots[i := Some v]) w1 = (Inr slots', w')"
    and f': "filled us slots'"
    and k: "\<forall>j<length us. (j \<in> set rest \<or> (slots[i := Some v]) ! j \<noteq> None) \<longrightarrow> slots' ! j \<noteq> None"
    by auto
  have len: "length slots = length us" using Cons.prems(2) by (simp add: filled_def)
  have "\<forall>j<length us. (j \<in> set (i # rest) \<or> slots ! j \<noteq> None) \<longrightarrow> slots' ! j \<noteq> None"
  proof (intro allI impI)
    fix j assume j: "j < length us" and h: "j \<in> set (i # rest) \<or> slots ! j \<noteq> None"
    have "j \<in> set rest \<or> (slots[i := Some v]) ! j \<noteq> None"
      using h j len by (cases "j = i") auto
    with k j show "slots' ! j \<noteq> None" by blast
  qed
  then show ?case using c s f' by simp
qed

lemma those_all_some:
  "\<forall>x\<in>set xs. x \<noteq> None \<Longrightarrow> those xs = Some (map the xs)"
  by (induction xs) auto

lemma completion_order_set: "set (completion_order us) = {..<length us}"
  by (auto simp: completion_order_def)

lemma gather_ok:
  assumes "\<forall>u\<in>set us. \<forall>s. \<not> isl (fst (call u s))"
  shows "\<exists>rs w'. gather_run_task us w = (Inr rs, w') \<and> length rs = length us \<and>
     (\<forall>i<length us. \<exists>s. fst (call (us ! i) s) = Inr (rs ! i)) \<and>
     (\<exists>evs. trace w' = trace w @ evs \<and> schedule evs = map Invoke us)"
proof -
  let ?w1 = "fold dispatch us w"
  let ?init = "replicate (length us) (None :: 'b pyval option)"
  have f0: "filled us ?init" by (simp add: filled_def)
  from settle_ok[OF assms _ f0, of "completion_order us" ?w1] obtain slots' w' where
    s: "settle us (completion_order us) ?init ?w1 = (Inr slots', w')"
    and f: "filled us slots'"
    and k: "\<forall>j<length us. (j \<in> set (completion_order us) \<or> ?init ! j \<noteq> None) \<longrightarrow> slots' ! j \<noteq> None"
    by (auto simp: completion_order_set)
  have len: "length slots' = length us" using f by (simp add: filled_def)
  have all: "\<forall>x\<in>set slots'. x \<noteq> None"
    using k len by (auto simp: in_set_conv_nth completion_order_set)
  then have th: "those slots' = Some (map the slots')" by (rule those_all_some)
  have g: "gather_run_task us w = (Inr (map the slots'), w')"
    using s th by (simp add: gather_run_task_def)
  have vals: "\<forall>i<length us. \<exists>s. fst (call (us ! i) s) = Inr (map the slots' ! i)"
  proof (intro allI impI)
    fix i assume i: "i < length us"
    then have "slots' ! i \<noteq> None" using all len by simp
    then obtain v where v: "slots' ! i = Some v" by auto
    with f i have "\<exists>s. fst (call (us ! i) s) = Inr v" by (simp add: filled_def)
    then show "\<exists>s. fst (call (us ! i) s) = Inr (map the slots' ! i)" using v i len by simp
  qed
  from settle_trace[of us "completion_order us" ?init ?w1] s obtain evs where
    "trace w' = trace ?w1 @ evs" "schedule evs = []" by auto
  then have tr: "trace w' = trace w @ (map Invoke us @ evs)"
    and sc: "schedule (map Invoke us @ evs) = map Invoke us"
    by (simp_all add: fold_dispatch_trace schedule_append schedule_invokes)
  show ?thesis
  proof (intro exI conjI)
    show "gather_run_task us w = (Inr (map the slots'), w')" by (rule g)
    show "length (map the slots') = length us" using len by simp
    show "\<forall>i<length us. \<exists>s. fst (call (us ! i) s) = Inr (map the slots' ! i)" by (rule vals)
    show "trace w' = trace w @ (map Invoke us @ evs)" by (rule tr)
    show "schedule (map Invoke us @ evs) = map Invoke us" by (rule sc)
  qed
qed

lemma run_in_parallel_ok:
  assumes "\<forall>u\<in>set us. \<forall>s. \<not> isl (fst (call u s))"
  shows "\<exists>rs w'. run_in_parallel us w = (Inr rs, w') \<and> length rs = length us \<and>
     (\<forall>i<length us. \<exists>s. fst (call (us ! i) s) = Inr (rs ! i)) \<and>
     (\<exists>evs. trace w' = trace w @ evs \<and> schedule evs = map Invoke us)"
proof -
  let ?w0 = "logger INFO (RunningParallel (length us)) w"
  from gather_ok[OF assms, of ?w0] obtain rs w' evs where
    g: "gather_run_task us ?w0 = (Inr rs, w')" and l: "length rs = length us"
    and v: "\<forall>i<length us. \<exists>s. fst (call (us ! i) s) = Inr (rs ! i)"
    and t: "trace w' = trace ?w0 @ evs" and sc: "schedule evs = map Invoke us"
    by blast
  let ?w2 = "logger INFO ParallelCompleted w'"
  have r: "run_in_parallel us w = (Inr rs, ?w2)" using g by (simp add: run_in_parallel_def)
  let ?evs = "Log INFO (RunningParallel (length us)) # evs @ [Log INFO ParallelCompleted]"
  have tr: "trace ?w2 = trace w @ ?evs"
    using t by (simp add: logger_def emit_def)
  have sc': "schedule ?evs = map Invoke us"
    using sc by (simp add: schedule_def)
  show ?thesis
  proof (intro exI conjI)
    show "run_in_parallel us w = (Inr rs, ?w2)" by (rule r)
    show "length rs = length us" by (rule l)
    show "\<forall>i<length us. \<exists>s. fst (call (us ! i) s) = Inr (rs ! i)" by (rule v)
    show "trace ?w2 = trace w @ ?evs" by (rule tr)
    show "schedule ?evs = map Invoke us" by (rule sc')
  qed
qed

lemma settle_fail:
  "i \<in> set is \<Longrightarrow> \<forall>s. isl (fst (call (us ! i) s)) \<Longrightarrow> isl (fst (settle us is slots w))"
proof (induction "is" arbitrary: slots w)
  case Nil
  then show ?case by simp
next
  case (Cons j rest)
  obtain r w1 where c: "complete (us ! j) w = (r, w1)" by (metis prod.collapse)
  show ?case
  proof (cases r)
    case (Inl e)
    then show ?thesis using c by simp
  next
    case (Inr v)
    then have "j \<noteq> i" using c complete_fst[of "us ! j" w] Cons.prems(2) by (metis fst_conv sum.disc(2))
    then have "i \<in> set rest" using Cons.prems(1) by simp
    then show ?thesis using Cons.IH Cons.prems(2) c Inr by simp
  qed
qed

lemma settle_Inl:
  "settle us is slots w = (Inl e, w') \<Longrightarrow> \<exists>j\<in>set is. \<exists>s. fst (call (us ! j) s) = Inl e"
proof (induction "is" arbitrary: slots w)
  case Nil
  then show ?case by simp
next
  case (Cons j rest)
  obtain r w1 where c: "complete (us ! j) w = (r, w1)" by (metis prod.collapse)
  show ?case
  proof (cases r)
    case (Inl e')
    then have "e' = e" using c Cons.prems by simp
    then show ?thesis using c Inl complete_fst[of "us ! j" w] by (metis fst_conv list.set_intros(1))
  next
    case (Inr v)
    then have "settle us rest (slots[j := Some v]) w1 = (Inl e, w')" using c Cons.prems by simp
    from Cons.IH[OF this] show ?thesis by auto
  qed
qed

text \<open>
  Claim C4. When some unit of the sequence fails (it raises whenever it is invoked),
  \<^verbatim>\<open>run_in_parallel\<close> raises: what the caller gets is an exception, the failure of one of the
  units, and no list of results, so the results of the units that succeeded are lost.
\<close>

theorem run_in_parallel_fail_fast:
  assumes "i < length tasks" and "\<forall>s. isl (fst (call (tasks ! i) s))"
  shows "\<exists>e. fst (run_in_parallel tasks w) = Inl e \<and>
          (\<exists>j<length tasks. \<exists>s. fst (call (tasks ! j) s) = Inl e)"
proof -
  let ?w0 = "logger INFO (RunningParallel (length tasks)) w"
  let ?st = "settle tasks (completion_order tasks) (replicate (length tasks) None) (fold dispatch tasks ?w0)"
  have "i \<in> set (completion_order tasks)" using assms(1) by (simp add: completion_order_set)
  from settle_fail[OF this assms(2)] have "isl (fst ?st)" .
  then obtain e w' where st: "?st = (Inl e, w')" by (metis isl_def prod.collapse)
  from settle_Inl[OF this] obtain j s where "j < length tasks" "fst (call (tasks ! j) s) = Inl e"
    by (auto simp: completion_order_set)
  moreover have "fst (run_in_parallel tasks w) = Inl e"
    using st by (simp add: run_in_parallel_def gather_run_task_def)
  ultimately show ?thesis by blast
qed

theorem run_in_parallel_fail_fast_witness:
  "(1::nat) < length [succeeding ''A'' (1::nat) 3, failing ''B'' ''boom'' 1] \<and>
   (\<forall>s. isl (fst (call ([succeeding ''A'' (1::nat) 3, failing ''B'' ''boom'' 1] ! 1) s))) \<and>
   (\<exists>e. fst (run_in_parallel [succeeding ''A'' (1::nat) 3, failing ''B'' ''boom'' 1] fresh) =
      Inl e) \<and>
   fst (run_in_parallel [succeeding ''A'' (1::nat) 3, failing ''B'' ''boom'' 1] fresh) =
     Inl (RuntimeError ''boom'')"
proof -
  let ?tasks = "[succeeding ''A'' (1::nat) 3, failing ''B'' ''boom'' 1]"
  have n: "(1::nat) < length ?tasks" by simp
  have f: "\<forall>s. isl (fst (call (?tasks ! 1) s))" by (simp add: failing_def)
  from run_in_parallel_fail_fast[OF n f, of fresh]
  have e: "\<exists>e. fst (run_in_parallel ?tasks fresh) = Inl e" by blast
  have r: "fst (run_in_parallel ?tasks fresh) = Inl (RuntimeError ''boom'')"
    by (simp add: run_in_parallel_def gather_run_task_def completion_order_def complete_def
        dispatch_def emit_def logger_def fresh_def succeeding_def failing_def)
  show ?thesis
    by (intro conjI; fact n f e r)
qed

text \<open>
  Claim C3. When every unit succeeds, \<^verbatim>\<open>run_in_parallel\<close> returns a list as long as the
  sequence of units whose \<open>i\<close>-th element is a value returned by the \<open>i\<close>-th unit, and the
  units were dispatched in submission order. The running times of the units, which fix
  the order in which they complete, are arbitrary.
\<close>

theorem run_in_parallel_submission_order:
  assumes "\<forall>u\<in>set tasks. \<forall>s. \<not> isl (fst (call u s))"
  shows "\<exists>results. fst (run_in_parallel tasks w) = Inr results \<and>
           length results = length tasks \<and>
           (\<forall>i<length tasks. \<exists>s. fst (call (tasks ! i) s) = Inr (results ! i)) \<and>
           schedule (since w (snd (run_in_parallel tasks w))) = map Invoke tasks"
proof -
  from run_in_parallel_ok[OF assms, of w] obtain rs w' evs where
    r: "run_in_parallel tasks w = (Inr rs, w')" and l: "length rs = length tasks"
    and v: "\<forall>i<length tasks. \<exists>s. fst (call (tasks ! i) s) = Inr (rs ! i)"
    and t: "trace w' = trace w @ evs" and sc: "schedule evs = map Invoke tasks"
    by blast
  have "since w (snd (run_in_parallel tasks w)) = evs"
    using r since_append[OF t] by simp
  then show ?thesis using r l v sc by simp
qed

theorem run_in_parallel_submission_order_witness:
  "(\<forall>s. \<not> isl (fst (call (succeeding ''A'' (1::nat) 3) s))) \<and>
   (\<forall>s. \<not> isl (fst (call (succeeding ''B'' (2::nat) 1) s))) \<and>
   fst (run_in_parallel [succeeding ''A'' (1::nat) 3, succeeding ''B'' 2 1] fresh) =
     Inr [PyVal 1, PyVal 2] \<and>
   schedule (since fresh
       (snd (run_in_parallel [succeeding ''A'' (1::nat) 3, succeeding ''B'' 2 1] fresh))) =
     map Invoke [succeeding ''A'' 1 3, succeeding ''B'' 2 1] \<and>
   since fresh (snd (run_in_parallel [succeeding ''A'' (1::nat) 3, succeeding ''B'' 2 1] fresh)) =
     [Log INFO (RunningParallel 2),
      Invoke (succeeding ''A'' 1 3), Invoke (succeeding ''B'' 2 1),
      Finish (succeeding ''B'' 2 1), Finish (succeeding ''A'' 1 3),
      Log INFO ParallelCompleted]"
proof -
  let ?tasks = "[succeeding ''A'' (1::nat) 3, succeeding ''B'' 2 1]"
  have ok: "\<forall>u\<in>set ?tasks. \<forall>s. \<not> isl (fst (call u s))"
    by (simp add: succeeding_def)
  from run_in_parallel_submission_order[OF ok, of fresh]
  have s: "schedule (since fresh (snd (run_in_parallel ?tasks fresh))) = map Invoke ?tasks"
    by blast
  have r: "fst (run_in_parallel ?tasks fresh) = Inr [PyVal 1, PyVal 2]"
    by (simp add: run_in_parallel_def gather_run_task_def completion_order_def complete_def
        dispatch_def emit_def logger_def fresh_def succeeding_def)
  have t: "since fresh (snd (run_in_parallel ?tasks fresh)) =
     [Log INFO (RunningParallel 2),
      Invoke (succeeding ''A'' 1 3), Invoke (succeeding ''B'' 2 1),
      Finish (succeeding ''B'' 2 1), Finish (succeeding ''A'' 1 3),
      Log INFO ParallelCompleted]"
    by (simp add: run_in_parallel_def gather_run_task_def completion_order_def complete_def
        dispatch_def emit_def logger_def fresh_def succeeding_def since_def)
  have a: "\<forall>s. \<not> isl (fst (call (succeeding ''A'' (1::nat) 3) s))"
    and b: "\<forall>s. \<not> isl (fst (call (succeeding ''B'' (2::nat) 1) s))"
    by (simp_all add: succeeding_def)
  show ?thesis
    by (intro conjI; fact a b r s t)
qed

text \<open>
  Whatever the units do, \<^verbatim>\<open>run_in_parallel\<close> either returns one result per unit, in
  submission order, or raises an exception raised by one of the units; in both cases every
  unit was dispatched, in submission order.
\<close>

lemma settle_Inr:
  "settle us is slots w = (Inr slots', w') \<Longrightarrow> set is \<subseteq> {..<length us} \<Longrightarrow> filled us slots \<Longrightarrow>
     filled us slots' \<and>
     (\<forall>j<length us. (j \<in> set is \<or> slots ! j \<noteq> None) \<longrightarrow> slots' ! j \<noteq> None)"
proof (induction "is" arbitrary: slots w)
  case Nil
  then show ?case by simp
next
  case (Cons i rest)
  have i: "i < length us" using Cons.prems(2) by simp
  obtain r w1 where c: "complete (us ! i) w = (r, w1)" by (metis prod.collapse)
  show ?case
  proof (cases r)
    case (Inl e)
    then show ?thesis using c Cons.prems(1) by simp
  next
    case (Inr v)
    have v: "fst (call (us ! i) (env w)) = Inr v"
      using c Inr complete_fst[of "us ! i" w] by simp
    have f: "filled us (slots[i := Some v])"
      using Cons.prems(3) v i unfolding filled_def
      by (auto simp: nth_list_update)
    have s: "settle us rest (slots[i := Some v]) w1 = (Inr slots', w')"
      using c Inr Cons.prems(1) by simp
    from Cons.IH[OF s _ f] Cons.prems(2) have
      f': "filled us slots'"
      and k: "\<forall>j<length us. (j \<in> set rest \<or> (slots[i := Some v]) ! j \<noteq> None) \<longrightarrow> slots' ! j \<noteq> None"
      by auto
    have len: "length slots = length us" using Cons.prems(3) by (simp add: filled_def)
    have "\<forall>j<length us. (j \<in> set (i # rest) \<or> slots ! j \<noteq> None) \<longrightarrow> slots' ! j \<noteq> None"
    proof (intro allI impI)
      fix j assume j: "j < length us" and h: "j \<in> set (i # rest) \<or> slots ! j \<noteq> None"
      have "j \<in> set rest \<or> (slots[i := Some v]) ! j \<noteq> None"
        using h j len by (cases "j = i") auto
      with k j show "slots' ! j \<noteq> None" by blast
    qed
    then show ?thesis using f' by simp
  qed
qed

lemma gather_cases:
  "(\<exists>rs w' evs. gather_run_task us w = (Inr rs, w') \<and> list_all2 returned_by us rs \<and>
       trace w' = trace w @ evs \<and> schedule evs = map Invoke us) \<or>
   (\<exists>e w' evs. gather_run_task us w = (Inl e, w') \<and> (\<exists>u\<in>set us. raised_by u e) \<and>
       trace w' = trace w @ evs \<and> schedule evs = map Invoke us)"
proof -
  let ?w1 = "fold dispatch us w"
  let ?init = "replicate (length us) None"
  obtain r w' where s: "settle us (completion_order us) ?init ?w1 = (r, w')"
    by (metis prod.collapse)
  from settle_trace[of us "completion_order us" ?init ?w1] s obtain evs where
    "trace w' = trace ?w1 @ evs" "schedule evs = []" by auto
  then have tr: "trace w' = trace w @ (map Invoke us @ evs)"
    and sc: "schedule (map Invoke us @ evs) = map Invoke us"
    by (simp_all add: fold_dispatch_trace schedule_append schedule_invokes)
  show ?thesis
  proof (cases r)
    case (Inl e)
    from settle_Inl[OF s[unfolded Inl]] obtain j st where
      j: "j < length us" and c: "fst (call (us ! j) st) = Inl e"
      by (auto simp: completion_order_set)
    have rb: "\<exists>u\<in>set us. raised_by u e"
      using j c unfolding raised_by_def by (metis nth_mem)
    have g: "gather_run_task us w = (Inl e, w')" using s Inl by (simp add: gather_run_task_def)
    have "\<exists>e w' evs. gather_run_task us w = (Inl e, w') \<and> (\<exists>u\<in>set us. raised_by u e) \<and>
       trace w' = trace w @ evs \<and> schedule evs = map Invoke us"
    proof (intro exI conjI)
      show "gather_run_task us w = (Inl e, w')" by (rule g)
      show "\<exists>u\<in>set us. raised_by u e" by (rule rb)
      show "trace w' = trace w @ (map Invoke us @ evs)" by (rule tr)
      show "schedule (map Invoke us @ evs) = map Invoke us" by (rule sc)
    qed
    then show ?thesis by (rule disjI2)
  next
    case (Inr slots')
    have f0: "filled us ?init" by (simp add: filled_def)
    from settle_Inr[OF s[unfolded Inr] _ f0] have f: "filled us slots'"
      and k: "\<forall>j<length us. (j \<in> set (completion_order us) \<or> ?init ! j \<noteq> None) \<longrightarrow> slots' ! j \<noteq> None"
      by (auto simp: completion_order_set)
    have len: "length slots' = length us" using f by (simp add: filled_def)
    have all: "\<forall>x\<in>set slots'. x \<noteq> None"
      using k len by (auto simp: in_set_conv_nth completion_order_set)
    then have th: "those slots' = Some (map the slots')" by (rule those_all_some)
    have g: "gather_run_task us w = (Inr (map the slots'), w')"
      using s Inr th by (simp add: gather_run_task_def)
    have la: "list_all2 returned_by us (map the slots')"
      unfolding list_all2_conv_all_nth
    proof (intro conjI allI impI)
      show "length us = length (map the slots')" using len by simp
      fix i assume i: "i < length us"
      then have "slots' ! i \<noteq> None" using all len by simp
      then obtain v where v: "slots' ! i = Some v" by auto
      with f i have "\<exists>s. fst (call (us ! i) s) = Inr v" by (simp add: filled_def)
      then show "returned_by (us ! i) (map the slots' ! i)"
        using v i len by (simp add: returned_by_def)
    qed
    have "\<exists>rs w' evs. gather_run_task us w = (Inr rs, w') \<and> list_all2 returned_by us rs \<and>
       trace w' = trace w @ evs \<and> schedule evs = map Invoke us"
    proof (intro exI conjI)
      show "gather_run_task us w = (Inr (map the slots'), w')" by (rule g)
      show "list_all2 returned_by us (map the slots')" by (rule la)
      show "trace w' = trace w @ (map Invoke us @ evs)" by (rule tr)
      show "schedule (map Invoke us @ evs) = map Invoke us" by (rule sc)
    qed
    then show ?thesis by (rule disjI1)
  qed
qed

lemma run_in_parallel_cases:
  "(\<exists>rs w' evs. run_in_parallel us w = (Inr rs, w') \<and> list_all2 returned_by us rs \<and>
       trace w' = trace w @ evs \<and> schedule evs = map Invoke us) \<or>
   (\<exists>e w' evs. run_in_parallel us w = (Inl e, w') \<and> (\<exists>u\<in>set us. raised_by u e) \<and>
       trace w' = trace w @ evs \<and> schedule evs = map Invoke us)"
proof -
  let ?w0 = "logger INFO (RunningParallel (length us)) w"
  have t0: "trace ?w0 = trace w @ [Log INFO (RunningParallel (length us))]"
    by (simp add: logger_def emit_def)
  from gather_cases[of us ?w0] show ?thesis
  proof (elim disjE exE conjE)
    fix rs w' evs
    assume g: "gather_run_task us ?w0 = (Inr rs, w')" and la: "list_all2 returned_by us rs"
      and t: "trace w' = trace ?w0 @ evs" and sc: "schedule evs = map Invoke us"
    let ?w2 = "logger INFO ParallelCompleted w'"
    let ?evs = "Log INFO (RunningParallel (length us)) # evs @ [Log INFO ParallelCompleted]"
    have "\<exists>rs w' evs. run_in_parallel us w = (Inr rs, w') \<and> list_all2 returned_by us rs \<and>
       trace w' = trace w @ evs \<and> schedule evs = map Invoke us"
    proof (intro exI conjI)
      show "run_in_parallel us w = (Inr rs, ?w2)" using g by (simp add: run_in_parallel_def)
      show "list_all2 returned_by us rs" by (rule la)
      show "trace ?w2 = trace w @ ?evs" using t t0 by (simp add: logger_def emit_def)
      show "schedule ?evs = map Invoke us" using sc by (simp add: schedule_def)
    qed
    then show ?thesis by (rule disjI1)
  next
    fix e w' evs
    assume g: "gather_run_task us ?w0 = (Inl e, w')" and rb: "\<exists>u\<in>set us. raised_by u e"
      and t: "trace w' = trace ?w0 @ evs" and sc: "schedule evs = map Invoke us"
    let ?evs = "Log INFO (RunningParallel (length us)) # evs"
    have "\<exists>e w' evs. run_in_parallel us w = (Inl e, w') \<and> (\<exists>u\<in>set us. raised_by u e) \<and>
       trace w' = trace w @ evs \<and> schedule evs = map Invoke us"
    proof (intro exI conjI)
      show "run_in_parallel us w = (Inl e, w')" using g by (simp add: run_in_parallel_def)
      show "\<exists>u\<in>set us. raised_by u e" by (rule rb)
      show "trace w' = trace w @ ?evs" using t t0 by simp
      show "schedule ?evs = map Invoke us" using sc by (simp add: schedule_def)
    qed
    then show ?thesis by (rule disjI2)
  qed
qed

section \<open>Properties of the rate-limited batcher\<close>

lemma batch_count_less: "0 < B \<Longrightarrow> k < batch_count n B \<longleftrightarrow> k * B < n"
proof -
  assume B: "0 < B"
  have "k < batch_count n B \<longleftrightarrow> Suc k \<le> (n + B - 1) div B"
    by (simp add: batch_count_def Suc_le_eq)
  also have "\<dots> \<longleftrightarrow> Suc k * B \<le> n + B - 1"
    using B by (simp add: less_eq_div_iff_mult_less_eq)
  also have "\<dots> \<longleftrightarrow> k * B < n"
    using B by auto
  finally show ?thesis .
qed

lemma slice_batch: "slice xs (int (k * B)) (int (k * B) + int B) = batch B xs k"
  by (simp add: slice_def batch_def flip: of_nat_mult)

lemma rate_limit_loop_step:
  "0 < rate_limit \<Longrightarrow> i < int (length tasks) \<Longrightarrow>
   run_in_parallel (slice tasks i (i + rate_limit)) w = (Inr brs, w1) \<Longrightarrow>
   rate_limit_loop tasks rate_limit P i acc w =
     rate_limit_loop tasks rate_limit P (i + rate_limit) (acc @ brs)
       (if i + rate_limit < int (length tasks)
        then sleep P (logger INFO (RateLimitReached P) w1) else w1)"
  by (subst rate_limit_loop.simps) (simp del: rate_limit_loop.simps)

lemma rate_limit_loop_fail:
  "0 < rate_limit \<Longrightarrow> i < int (length tasks) \<Longrightarrow>
   run_in_parallel (slice tasks i (i + rate_limit)) w = (Inl e, w1) \<Longrightarrow>
   rate_limit_loop tasks rate_limit P i acc w = (Inl e, w1)"
  by (subst rate_limit_loop.simps) (simp del: rate_limit_loop.simps)

lemma rate_limit_loop_exit:
  "\<not> i < int (length tasks) \<Longrightarrow> rate_limit_loop tasks rate_limit P i acc w = (Inr acc, w)"
  by (subst rate_limit_loop.simps) (simp del: rate_limit_loop.simps)

lemma sleeps_of_schedule: "filter is_sleep (schedule evs) = filter is_sleep evs"
  by (induction evs) (auto simp: schedule_def)

lemma sleeps_of_groups:
  "filter is_sleep (concat (map (\<lambda>k. map Invoke (f k) @ (if g k then [Sleep P] else [])) ks)) =
     replicate (length (filter g ks)) (Sleep P)"
proof (induction ks)
  case Nil
  then show ?case by simp
next
  case (Cons k ks)
  have "filter is_sleep (map Invoke (f k)) = []" by (induction "f k") (auto simp: filter_empty_conv)
  then show ?case using Cons by simp
qed

lemma not_last_count: "length (filter (\<lambda>k. Suc k < m) [0..<m]) = m - 1"
proof (cases m)
  case 0
  then show ?thesis by simp
next
  case (Suc n)
  have "filter (\<lambda>k. k < n) [0..<n] = [0..<n]" by (simp add: filter_id_conv)
  then show ?thesis using Suc by simp
qed

lemma batched_schedule_sleeps:
  "length (filter is_sleep (batched_schedule B P us 0)) = batch_count (length us) B - 1"
  unfolding batched_schedule_def sleeps_of_groups
  by (simp add: not_last_count)

lemma concat_batches:
  assumes B: "0 < B"
  shows "j = batch_count (length xs) B - k \<Longrightarrow> k \<le> batch_count (length xs) B \<Longrightarrow>
     concat (map (batch B xs) [k..<batch_count (length xs) B]) = drop (k * B) xs"
proof (induction j arbitrary: k)
  case 0
  then have "\<not> k * B < length xs" using batch_count_less[OF B, of k "length xs"] by simp
  then show ?case using 0 by simp
next
  case (Suc j)
  let ?m = "batch_count (length xs) B"
  have km: "k < ?m" using Suc.prems by simp
  have upd: "[k..<?m] = k # [Suc k..<?m]" using km by (simp add: upt_conv_Cons)
  have "concat (map (batch B xs) [Suc k..<?m]) = drop (Suc k * B) xs"
    using Suc.IH[of "Suc k"] Suc.prems by simp
  moreover have "drop (k * B) xs = batch B xs k @ drop (Suc k * B) xs"
    unfolding batch_def using append_take_drop_id[of B "drop (k * B) xs"]
    by (simp add: add.commute)
  ultimately show ?case using upd by simp
qed

lemma batch_sizes:
  assumes B: "0 < B" and k: "k < batch_count (length xs) B"
  shows "batch B xs k \<noteq> [] \<and> length (batch B xs k) \<le> B \<and>
         (k + 1 < batch_count (length xs) B \<longrightarrow> length (batch B xs k) = B)"
proof -
  have lt: "k * B < length xs" using batch_count_less[OF B] k by simp
  have full: "length (batch B xs k) = B" if "k + 1 < batch_count (length xs) B"
  proof -
    from that have "Suc k * B < length xs" using batch_count_less[OF B, of "Suc k"] by simp
    then show ?thesis by (simp add: batch_def)
  qed
  have "length (batch B xs k) = min B (length xs - k * B)" by (simp add: batch_def min.commute)
  then have "0 < length (batch B xs k)" "length (batch B xs k) \<le> B" using lt B by simp_all
  then show ?thesis using full by auto
qed

lemma sleeps_of_full_groups:
  "filter is_sleep (concat (map (\<lambda>j. map Invoke (f j) @ [Sleep P]) ks) @ map Invoke xs) =
     replicate (length ks) (Sleep P)"
proof -
  have inv: "filter is_sleep (map Invoke ys) = []" for ys :: "('a, 'b) callable list"
    by (induction ys) auto
  show ?thesis by (induction ks) (simp_all add: inv)
qed

lemma aborted_schedule_sleeps:
  "length (filter is_sleep (aborted_schedule B P us 0 k)) = k"
  unfolding aborted_schedule_def sleeps_of_full_groups by simp

lemma rate_limit_loop_cases:
  assumes B: "0 < B"
  shows "j = batch_count (length tasks) B - k \<Longrightarrow> k \<le> batch_count (length tasks) B \<Longrightarrow>
     (\<exists>rs w' evs. rate_limit_loop tasks (int B) P (int (k * B)) acc w = (Inr (acc @ rs), w') \<and>
        list_all2 returned_by (drop (k * B) tasks) rs \<and>
        trace w' = trace w @ evs \<and> schedule evs = batched_schedule B P tasks k) \<or>
     (\<exists>k' e w' evs. k \<le> k' \<and> k' < batch_count (length tasks) B \<and>
        rate_limit_loop tasks (int B) P (int (k * B)) acc w = (Inl e, w') \<and>
        (\<exists>u\<in>set (batch B tasks k'). raised_by u e) \<and>
        trace w' = trace w @ evs \<and> schedule evs = aborted_schedule B P tasks k k')"
proof (induction j arbitrary: k acc w)
  case 0
  then have k: "k = batch_count (length tasks) B" by simp
  then have nlt: "\<not> k * B < length tasks" using batch_count_less[OF B, of k "length tasks"] by simp
  then have l: "rate_limit_loop tasks (int B) P (int (k * B)) acc w = (Inr acc, w)"
    by (intro rate_limit_loop_exit) (simp only: of_nat_less_iff not_False_eq_True)
  have "\<exists>rs w' evs. rate_limit_loop tasks (int B) P (int (k * B)) acc w = (Inr (acc @ rs), w') \<and>
        list_all2 returned_by (drop (k * B) tasks) rs \<and>
        trace w' = trace w @ evs \<and> schedule evs = batched_schedule B P tasks k"
  proof (intro exI conjI)
    show "rate_limit_loop tasks (int B) P (int (k * B)) acc w = (Inr (acc @ []), w)" using l by simp
    show "list_all2 returned_by (drop (k * B) tasks) []" using nlt by simp
    show "trace w = trace w @ []" by simp
    show "schedule [] = batched_schedule B P tasks k" using k by (simp add: batched_schedule_def schedule_def)
  qed
  then show ?case by (rule disjI1)
next
  case (Suc j)
  let ?m = "batch_count (length tasks) B"
  have km: "k < ?m" using Suc.prems by simp
  then have lt: "k * B < length tasks" using batch_count_less[OF B] by simp
  let ?b = "batch B tasks k"
  have pre: "0 < int B" "int (k * B) < int (length tasks)"
    using B lt by (simp_all only: of_nat_less_iff of_nat_0_less_iff)
  from run_in_parallel_cases[of ?b w] show ?case
  proof (elim disjE exE conjE)
    fix e w1 ev1
    assume r: "run_in_parallel ?b w = (Inl e, w1)" and rb: "\<exists>u\<in>set ?b. raised_by u e"
      and t: "trace w1 = trace w @ ev1" and sc: "schedule ev1 = map Invoke ?b"
    have r': "run_in_parallel (slice tasks (int (k * B)) (int (k * B) + int B)) w = (Inl e, w1)"
      using r by (simp only: slice_batch)
    have l: "rate_limit_loop tasks (int B) P (int (k * B)) acc w = (Inl e, w1)"
      by (rule rate_limit_loop_fail[OF pre r'])
    have "\<exists>k' e w' evs. k \<le> k' \<and> k' < ?m \<and>
        rate_limit_loop tasks (int B) P (int (k * B)) acc w = (Inl e, w') \<and>
        (\<exists>u\<in>set (batch B tasks k'). raised_by u e) \<and>
        trace w' = trace w @ evs \<and> schedule evs = aborted_schedule B P tasks k k'"
    proof (intro exI conjI)
      show "k \<le> k" by simp
      show "k < ?m" by (rule km)
      show "rate_limit_loop tasks (int B) P (int (k * B)) acc w = (Inl e, w1)" by (rule l)
      show "\<exists>u\<in>set (batch B tasks k). raised_by u e" by (rule rb)
      show "trace w1 = trace w @ ev1" by (rule t)
      show "schedule ev1 = aborted_schedule B P tasks k k" using sc by (simp add: aborted_schedule_def)
    qed
    then show ?thesis by (rule disjI2)
  next
    fix brs w1 ev1
    assume r: "run_in_parallel ?b w = (Inr brs, w1)" and la: "list_all2 returned_by ?b brs"
      and t: "trace w1 = trace w @ ev1" and sc: "schedule ev1 = map Invoke ?b"
    have next_i: "int (k * B) + int B = int (Suc k * B)"
      by (simp add: algebra_simps)
    have more: "int (k * B) + int B < int (length tasks) \<longleftrightarrow> Suc k < ?m"
      unfolding next_i of_nat_less_iff
      using batch_count_less[OF B, of "Suc k" "length tasks"] by simp
    let ?w2 = "if Suc k < ?m then sleep P (logger INFO (RateLimitReached P) w1) else w1"
    let ?ev2 = "if Suc k < ?m then [Log INFO (RateLimitReached P), Sleep P] else []"
    have t2: "trace ?w2 = trace w @ ev1 @ ?ev2"
      using t by (simp add: sleep_def logger_def emit_def)
    have r': "run_in_parallel (slice tasks (int (k * B)) (int (k * B) + int B)) w = (Inr brs, w1)"
      using r by (simp only: slice_batch)
    from rate_limit_loop_step[OF pre r', of P acc]
    have step: "rate_limit_loop tasks (int B) P (int (k * B)) acc w =
        rate_limit_loop tasks (int B) P (int (Suc k * B)) (acc @ brs) ?w2"
      unfolding more unfolding next_i .
    have j: "j = ?m - Suc k" "Suc k \<le> ?m" using Suc.prems by simp_all
    have split: "drop (k * B) tasks = ?b @ drop (Suc k * B) tasks"
      unfolding batch_def using append_take_drop_id[of B "drop (k * B) tasks"]
      by (simp add: add.commute)
    from Suc.IH[OF j, of "acc @ brs" ?w2] show ?thesis
    proof (elim disjE exE conjE)
      fix rs w' evs
      assume rr: "rate_limit_loop tasks (int B) P (int (Suc k * B)) (acc @ brs) ?w2 =
            (Inr ((acc @ brs) @ rs), w')"
        and la': "list_all2 returned_by (drop (Suc k * B) tasks) rs"
        and t': "trace w' = trace ?w2 @ evs"
        and sc': "schedule evs = batched_schedule B P tasks (Suc k)"
      have upd: "[k..<?m] = k # [Suc k..<?m]" using km by (simp add: upt_conv_Cons)
      have sched: "schedule (ev1 @ ?ev2 @ evs) = batched_schedule B P tasks k"
        using sc sc' by (simp add: schedule_append batched_schedule_def upd) (simp add: schedule_def)
      have "\<exists>rs w' evs. rate_limit_loop tasks (int B) P (int (k * B)) acc w = (Inr (acc @ rs), w') \<and>
        list_all2 returned_by (drop (k * B) tasks) rs \<and>
        trace w' = trace w @ evs \<and> schedule evs = batched_schedule B P tasks k"
      proof (intro exI conjI)
        show "rate_limit_loop tasks (int B) P (int (k * B)) acc w = (Inr (acc @ (brs @ rs)), w')"
          using step rr by simp
        show "list_all2 returned_by (drop (k * B) tasks) (brs @ rs)"
          using la la' split by (simp add: list_all2_appendI)
        show "trace w' = trace w @ (ev1 @ ?ev2 @ evs)" using t' t2 by simp
        show "schedule (ev1 @ ?ev2 @ evs) = batched_schedule B P tasks k" by (rule sched)
      qed
      then show ?thesis by (rule disjI1)
    next
      fix k' e w' evs
      assume kk: "Suc k \<le> k'" and k'm: "k' < ?m"
        and rr: "rate_limit_loop tasks (int B) P (int (Suc k * B)) (acc @ brs) ?w2 = (Inl e, w')"
        and rb: "\<exists>u\<in>set (batch B tasks k'). raised_by u e"
        and t': "trace w' = trace ?w2 @ evs"
        and sc': "schedule evs = aborted_schedule B P tasks (Suc k) k'"
      have sm: "Suc k < ?m" using kk k'm by simp
      have upd: "[k..<k'] = k # [Suc k..<k']" using kk by (simp add: upt_conv_Cons)
      have sched: "schedule (ev1 @ ?ev2 @ evs) = aborted_schedule B P tasks k k'"
        using sc sc' sm by (simp add: schedule_append aborted_schedule_def upd) (simp add: schedule_def)
      have "\<exists>k' e w' evs. k \<le> k' \<and> k' < ?m \<and>
        rate_limit_loop tasks (int B) P (int (k * B)) acc w = (Inl e, w') \<and>
        (\<exists>u\<in>set (batch B tasks k'). raised_by u e) \<and>
        trace w' = trace w @ evs \<and> schedule evs = aborted_schedule B P tasks k k'"
      proof (intro exI conjI)
        show "k \<le> k'" using kk by simp
        show "k' < ?m" by (rule k'm)
        show "rate_limit_loop tasks (int B) P (int (k * B)) acc w = (Inl e, w')" using step rr by simp
        show "\<exists>u\<in>set (batch B tasks k'). raised_by u e" by (rule rb)
        show "trace w' = trace w @ (ev1 @ ?ev2 @ evs)" using t' t2 by simp
        show "schedule (ev1 @ ?ev2 @ evs) = aborted_schedule B P tasks k k'" by (rule sched)
      qed
      then show ?thesis by (rule disjI2)
    qed
  qed
qed

lemma batch_subset: "set (batch B xs k) \<subseteq> set xs"
  unfolding batch_def by (meson set_take_subset set_drop_subset subset_trans)

text \<open>
  Claim C8, as the code has it. With a batch size \<open>B \<ge> 1\<close>, the groups are the consecutive
  groups of at most \<open>B\<close> units (none empty, all but the last of exactly \<open>B\<close>), and a run of
  \<^verbatim>\<open>run_with_rate_limit\<close> has one of two outcomes. Either it returns one result per unit, in
  submission order: then it dispatched the units group by group and slept \<open>P\<close> after every
  group but the last, so that with \<open>n \<ge> 1\<close> units the sleeps are one fewer than the
  groups, the ceiling of \<open>n / B\<close>, and with no unit there is no sleep. Or a unit of some
  group \<open>k\<close> raises: then the run raises that exception and returns no results, the groups
  before \<open>k\<close> were each dispatched and followed by a sleep, group \<open>k\<close> was dispatched, and
  no group and no sleep follows. Units that always succeed give the first outcome, a unit
  that always raises forces the second.
\<close>

theorem run_with_rate_limit_batches:
  assumes "1 \<le> rate_limit"
  shows "concat (map (batch (nat rate_limit) tasks)
        [0..<batch_count (length tasks) (nat rate_limit)]) = tasks \<and>
     (\<forall>k<batch_count (length tasks) (nat rate_limit).
        batch (nat rate_limit) tasks k \<noteq> [] \<and>
        length (batch (nat rate_limit) tasks k) \<le> nat rate_limit \<and>
        (k + 1 < batch_count (length tasks) (nat rate_limit) \<longrightarrow>
           length (batch (nat rate_limit) tasks k) = nat rate_limit)) \<and>
     ((\<exists>results. fst (run_with_rate_limit tasks rate_limit P w) = Inr results \<and>
         list_all2 returned_by tasks results \<and>
         schedule (since w (snd (run_with_rate_limit tasks rate_limit P w))) =
           batched_schedule (nat rate_limit) P tasks 0 \<and>
         (tasks = [] \<longrightarrow>
            filter is_sleep (since w (snd (run_with_rate_limit tasks rate_limit P w))) = []) \<and>
         (tasks \<noteq> [] \<longrightarrow>
            Suc (length (filter is_sleep
                (since w (snd (run_with_rate_limit tasks rate_limit P w))))) =
              batch_count (length tasks) (nat rate_limit))) \<or>
      (\<exists>k e. k < batch_count (length tasks) (nat rate_limit) \<and>
         fst (run_with_rate_limit tasks rate_limit P w) = Inl e \<and>
         (\<exists>u\<in>set (batch (nat rate_limit) tasks k). raised_by u e) \<and>
         schedule (since w (snd (run_with_rate_limit tasks rate_limit P w))) =
           aborted_schedule (nat rate_limit) P tasks 0 k \<and>
         length (filter is_sleep
           (since w (snd (run_with_rate_limit tasks rate_limit P w)))) = k)) \<and>
     ((\<forall>u\<in>set tasks. \<forall>s. \<not> isl (fst (call u s))) \<longrightarrow>
        (\<exists>results. fst (run_with_rate_limit tasks rate_limit P w) = Inr results \<and>
           list_all2 returned_by tasks results \<and>
           schedule (since w (snd (run_with_rate_limit tasks rate_limit P w))) =
             batched_schedule (nat rate_limit) P tasks 0 \<and>
           (tasks = [] \<longrightarrow>
              filter is_sleep (since w (snd (run_with_rate_limit tasks rate_limit P w))) = []) \<and>
           (tasks \<noteq> [] \<longrightarrow>
              Suc (length (filter is_sleep
                  (since w (snd (run_with_rate_limit tasks rate_limit P w))))) =
                batch_count (length tasks) (nat rate_limit)))) \<and>
     ((\<exists>u\<in>set tasks. \<forall>s. isl (fst (call u s))) \<longrightarrow>
        isl (fst (run_with_rate_limit tasks rate_limit P w)))"
proof -
  let ?B = "nat rate_limit"
  let ?m = "batch_count (length tasks) ?B"
  let ?r = "run_with_rate_limit tasks rate_limit P w"
  let ?S = "\<lambda>results. fst ?r = Inr results \<and> list_all2 returned_by tasks results \<and>
         schedule (since w (snd ?r)) = batched_schedule ?B P tasks 0 \<and>
         (tasks = [] \<longrightarrow> filter is_sleep (since w (snd ?r)) = []) \<and>
         (tasks \<noteq> [] \<longrightarrow> Suc (length (filter is_sleep (since w (snd ?r)))) = ?m)"
  let ?F = "\<lambda>k e. k < ?m \<and> fst ?r = Inl e \<and> (\<exists>u\<in>set (batch ?B tasks k). raised_by u e) \<and>
         schedule (since w (snd ?r)) = aborted_schedule ?B P tasks 0 k \<and>
         length (filter is_sleep (since w (snd ?r))) = k"
  have B: "0 < ?B" and nz: "rate_limit \<noteq> 0" using assms by simp_all
  have run: "?r = rate_limit_loop tasks (int ?B) P (int (0 * ?B)) [] w"
    using nz assms by (simp add: run_with_rate_limit_def)
  have cc: "concat (map (batch ?B tasks) [0..<?m]) = tasks"
    using concat_batches[OF B, of _ tasks 0] by simp
  have sizes: "batch ?B tasks k \<noteq> [] \<and> length (batch ?B tasks k) \<le> ?B \<and>
        (k + 1 < ?m \<longrightarrow> length (batch ?B tasks k) = ?B)" if "k < ?m" for k
    using batch_sizes[OF B that] .
  have m0: "0 < ?m \<longleftrightarrow> tasks \<noteq> []"
    using batch_count_less[OF B, of 0 "length tasks"] by simp
  have cases: "(\<exists>results. ?S results) \<or> (\<exists>k e. ?F k e)"
    using rate_limit_loop_cases[OF B refl le0, where tasks = tasks and P = P and acc = "[]" and w = w]
  proof (elim disjE exE conjE)
    fix rs w' evs
    assume l: "rate_limit_loop tasks (int ?B) P (int (0 * ?B)) [] w = (Inr ([] @ rs), w')"
      and la: "list_all2 returned_by (drop (0 * ?B) tasks) rs"
      and t: "trace w' = trace w @ evs"
      and sc: "schedule evs = batched_schedule ?B P tasks 0"
    have r: "?r = (Inr rs, w')" using run l by simp
    have ev: "since w (snd ?r) = evs" using r since_append[OF t] by simp
    have sl: "length (filter is_sleep evs) = ?m - 1"
      using sc sleeps_of_schedule[of evs] batched_schedule_sleeps[of ?B P tasks] by simp
    have "?S rs"
    proof (intro conjI impI)
      show "fst ?r = Inr rs" using r by simp
      show "list_all2 returned_by tasks rs" using la by simp
      show "schedule (since w (snd ?r)) = batched_schedule ?B P tasks 0" using ev sc by simp
      show "filter is_sleep (since w (snd ?r)) = []" if "tasks = []"
        using that ev sl m0 by simp
      show "Suc (length (filter is_sleep (since w (snd ?r)))) = ?m" if "tasks \<noteq> []"
        using that ev sl m0 by simp
    qed
    then show ?thesis by blast
  next
    fix k e w' evs
    assume km: "k < ?m"
      and l: "rate_limit_loop tasks (int ?B) P (int (0 * ?B)) [] w = (Inl e, w')"
      and rb: "\<exists>u\<in>set (batch ?B tasks k). raised_by u e"
      and t: "trace w' = trace w @ evs"
      and sc: "schedule evs = aborted_schedule ?B P tasks 0 k"
    have r: "?r = (Inl e, w')" using run l by simp
    have ev: "since w (snd ?r) = evs" using r since_append[OF t] by simp
    have sl: "length (filter is_sleep evs) = k"
      using sc sleeps_of_schedule[of evs] aborted_schedule_sleeps[of ?B P tasks k] by simp
    have "?F k e"
    proof (intro conjI)
      show "k < ?m" by (rule km)
      show "fst ?r = Inl e" using r by simp
      show "\<exists>u\<in>set (batch ?B tasks k). raised_by u e" by (rule rb)
      show "schedule (since w (snd ?r)) = aborted_schedule ?B P tasks 0 k" using ev sc by simp
      show "length (filter is_sleep (since w (snd ?r))) = k" using ev sl by simp
    qed
    then show ?thesis by blast
  qed
  have good: "\<exists>results. ?S results" if ok: "\<forall>u\<in>set tasks. \<forall>s. \<not> isl (fst (call u s))"
  proof -
    have "\<not> (\<exists>k e. ?F k e)"
    proof
      assume "\<exists>k e. ?F k e"
      then obtain k e u where "u \<in> set (batch ?B tasks k)" "raised_by u e" by blast
      then have "u \<in> set tasks" "\<exists>s. fst (call u s) = Inl e"
        using batch_subset[of ?B tasks k] by (auto simp: raised_by_def)
      then show False using ok by (metis sum.disc(1))
    qed
    with cases show ?thesis by blast
  qed
  have bad: "isl (fst ?r)" if fl: "\<exists>u\<in>set tasks. \<forall>s. isl (fst (call u s))"
  proof -
    from fl obtain u where u: "u \<in> set tasks" and f: "\<forall>s. isl (fst (call u s))" by blast
    have "\<not> (\<exists>results. ?S results)"
    proof
      assume "\<exists>results. ?S results"
      then obtain results where la: "list_all2 returned_by tasks results" by blast
      from u obtain i where i: "i < length tasks" "tasks ! i = u" by (metis in_set_conv_nth)
      with la have "returned_by u (results ! i)" by (auto simp: list_all2_conv_all_nth)
      then show False using f unfolding returned_by_def by (metis sum.disc(2))
    qed
    with cases obtain k e where "fst ?r = Inl e" by blast
    then show ?thesis by simp
  qed
  show ?thesis
  proof (intro conjI)
    show "concat (map (batch ?B tasks) [0..<?m]) = tasks" by (rule cc)
    show "\<forall>k<?m. batch ?B tasks k \<noteq> [] \<and> length (batch ?B tasks k) \<le> ?B \<and>
        (k + 1 < ?m \<longrightarrow> length (batch ?B tasks k) = ?B)"
      using sizes by blast
    show "(\<exists>results. ?S results) \<or> (\<exists>k e. ?F k e)" by (rule cases)
    show "(\<forall>u\<in>set tasks. \<forall>s. \<not> isl (fst (call u s))) \<longrightarrow> (\<exists>results. ?S results)"
      using good by blast
    show "(\<exists>u\<in>set tasks. \<forall>s. isl (fst (call u s))) \<longrightarrow> isl (fst ?r)"
      using bad by blast
  qed
qed

theorem run_with_rate_limit_batches_witness:
  "(1::int) \<le> 2 \<and>
   list_all (\<lambda>u. \<forall>s. \<not> isl (fst (call u s)))
     [succeeding ''u1'' (1::nat) 1, succeeding ''u2'' 2 1, succeeding ''u3'' 3 1,
      succeeding ''u4'' 4 1, succeeding ''u5'' 5 1] \<and>
   length (filter is_sleep (since fresh (snd (run_with_rate_limit
     [succeeding ''u1'' (1::nat) 1, succeeding ''u2'' 2 1, succeeding ''u3'' 3 1,
      succeeding ''u4'' 4 1, succeeding ''u5'' 5 1] 2 1 fresh)))) = 2 \<and>
   fst (run_with_rate_limit
     [succeeding ''u1'' (1::nat) 1, succeeding ''u2'' 2 1, succeeding ''u3'' 3 1,
      succeeding ''u4'' 4 1, succeeding ''u5'' 5 1] 2 1 fresh) =
     Inr [PyVal 1, PyVal 2, PyVal 3, PyVal 4, PyVal 5] \<and>
   schedule (since fresh (snd (run_with_rate_limit
     [succeeding ''u1'' (1::nat) 1, succeeding ''u2'' 2 1, succeeding ''u3'' 3 1,
      succeeding ''u4'' 4 1, succeeding ''u5'' 5 1] 2 1 fresh))) =
     [Invoke (succeeding ''u1'' 1 1), Invoke (succeeding ''u2'' 2 1), Sleep 1,
      Invoke (succeeding ''u3'' 3 1), Invoke (succeeding ''u4'' 4 1), Sleep 1,
      Invoke (succeeding ''u5'' 5 1)]"
proof -
  let ?tasks = "[succeeding ''u1'' (1::nat) 1, succeeding ''u2'' 2 1, succeeding ''u3'' 3 1,
      succeeding ''u4'' 4 1, succeeding ''u5'' 5 1]"
  let ?r = "run_with_rate_limit ?tasks 2 1 fresh"
  have one: "(1::int) \<le> 2" by simp
  have ok: "\<forall>u\<in>set ?tasks. \<forall>s. \<not> isl (fst (call u s))"
    by (simp add: succeeding_def)
  then have ok': "list_all (\<lambda>u. \<forall>s. \<not> isl (fst (call u s))) ?tasks"
    by (simp only: list_all_iff)
  have "(\<forall>u\<in>set ?tasks. \<forall>s. \<not> isl (fst (call u s))) \<longrightarrow>
        (\<exists>results. fst ?r = Inr results \<and> list_all2 returned_by ?tasks results \<and>
           schedule (since fresh (snd ?r)) = batched_schedule (nat 2) 1 ?tasks 0 \<and>
           (?tasks = [] \<longrightarrow> filter is_sleep (since fresh (snd ?r)) = []) \<and>
           (?tasks \<noteq> [] \<longrightarrow>
              Suc (length (filter is_sleep (since fresh (snd ?r)))) =
                batch_count (length ?tasks) (nat 2)))"
    using run_with_rate_limit_batches[OF one, of ?tasks 1 fresh] by (elim conjE)
  then have "\<exists>results. fst ?r = Inr results \<and> list_all2 returned_by ?tasks results \<and>
           schedule (since fresh (snd ?r)) = batched_schedule (nat 2) 1 ?tasks 0 \<and>
           (?tasks = [] \<longrightarrow> filter is_sleep (since fresh (snd ?r)) = []) \<and>
           (?tasks \<noteq> [] \<longrightarrow>
              Suc (length (filter is_sleep (since fresh (snd ?r)))) =
                batch_count (length ?tasks) (nat 2))"
    using ok by (rule mp)
  then have "?tasks \<noteq> [] \<longrightarrow>
      Suc (length (filter is_sleep (since fresh (snd ?r)))) = batch_count (length ?tasks) (nat 2)"
    by (elim exE conjE)
  then have n: "length (filter is_sleep (since fresh (snd ?r))) = 2"
    by (simp add: batch_count_def)
  have r: "fst ?r = Inr [PyVal 1, PyVal 2, PyVal 3, PyVal 4, PyVal 5]"
    by (simp add: run_with_rate_limit_def rate_limit_loop.simps slice_def run_in_parallel_def
        gather_run_task_def completion_order_def complete_def dispatch_def emit_def logger_def
        sleep_def fresh_def succeeding_def)
  have sc: "schedule (since fresh (snd ?r)) =
     [Invoke (succeeding ''u1'' 1 1), Invoke (succeeding ''u2'' 2 1), Sleep 1,
      Invoke (succeeding ''u3'' 3 1), Invoke (succeeding ''u4'' 4 1), Sleep 1,
      Invoke (succeeding ''u5'' 5 1)]"
    by (simp add: run_with_rate_limit_def rate_limit_loop.simps slice_def run_in_parallel_def
        gather_run_task_def completion_order_def complete_def dispatch_def emit_def logger_def
        sleep_def since_def schedule_def fresh_def succeeding_def)
  show ?thesis
    by (intro conjI; fact one ok' n r sc)
qed

text \<open>
  The claim as worded, for every sequence of units, does not hold: when the first of five
  units raises, with batches of two, the run raises after the first batch, having slept
  not twice but never, and returns no results.
\<close>

theorem run_with_rate_limit_failure_counterexample:
  "fst (run_with_rate_limit
      [failing ''u1'' ''boom'' 1, succeeding ''u2'' (2::nat) 1, succeeding ''u3'' 3 1,
       succeeding ''u4'' 4 1, succeeding ''u5'' 5 1] 2 1 fresh) = Inl (RuntimeError ''boom'') \<and>
   filter is_sleep (since fresh (snd (run_with_rate_limit
      [failing ''u1'' ''boom'' 1, succeeding ''u2'' (2::nat) 1, succeeding ''u3'' 3 1,
       succeeding ''u4'' 4 1, succeeding ''u5'' 5 1] 2 1 fresh))) = []"
  by (simp add: run_with_rate_limit_def rate_limit_loop.simps slice_def run_in_parallel_def
      gather_run_task_def completion_order_def complete_def dispatch_def emit_def logger_def
      since_def fresh_def succeeding_def failing_def)

section \<open>Properties of the dependency graph runner\<close>

lemma dg_error_mono: "dg_error tasks deps A e \<Longrightarrow> A \<subseteq> B \<Longrightarrow> dg_error tasks deps B e"
  unfolding dg_error_def by blast

lemma step_ok_refl: "dg_inv tasks deps st \<Longrightarrow> step_ok tasks deps st st []"
  unfolding step_ok_def by simp

lemma step_ok_trans:
  assumes "step_ok tasks deps st st1 new1" and "step_ok tasks deps st1 st2 new2"
  shows "step_ok tasks deps st st2 (new1 @ new2)"
proof -
  from assms(1) obtain evs1 us1 where
    a: "dg_in_progress st1 = dg_in_progress st" "keys st1 = keys st @ new1"
    and t1: "trace (dg_world st1) = trace (dg_world st) @ evs1"
    and l1: "list_all2 (\<lambda>x u. map_of tasks x = Some u) new1 us1"
    and f1: "filter is_invoke evs1 = map Invoke us1"
    unfolding step_ok_def by auto
  from assms(2) obtain evs2 us2 where
    b: "dg_in_progress st2 = dg_in_progress st1" "keys st2 = keys st1 @ new2"
      "dg_inv tasks deps st2"
    and t2: "trace (dg_world st2) = trace (dg_world st1) @ evs2"
    and l2: "list_all2 (\<lambda>x u. map_of tasks x = Some u) new2 us2"
    and f2: "filter is_invoke evs2 = map Invoke us2"
    unfolding step_ok_def by auto
  have "trace (dg_world st2) = trace (dg_world st) @ (evs1 @ evs2)" using t1 t2 by simp
  moreover have "list_all2 (\<lambda>x u. map_of tasks x = Some u) (new1 @ new2) (us1 @ us2)"
    using l1 l2 by (rule list_all2_appendI)
  moreover have "filter is_invoke (evs1 @ evs2) = map Invoke (us1 @ us2)" using f1 f2 by simp
  ultimately show ?thesis using a b unfolding step_ok_def by (metis append.assoc)
qed

lemma update_fresh: "k \<notin> fst ` set al \<Longrightarrow> AList.update k v al = al @ [(k, v)]"
  by (induction al) auto

lemma edges_iff: "(t, d) \<in> edges deps \<longleftrightarrow> d \<in> set (dict_get deps t [])"
  by (simp add: edges_def)

lemma resolved_order_snoc:
  "resolved_order deps ks \<Longrightarrow> t \<notin> set ks \<Longrightarrow> set (dict_get deps t []) \<subseteq> set ks \<Longrightarrow>
   resolved_order deps (ks @ [t])"
  unfolding resolved_order_def
  by (auto simp: nth_append less_Suc_eq)

lemma run_task_with_deps_cached:
  "map_of (dg_results st) t = Some r \<Longrightarrow> run_task_with_deps tasks deps t st = (Inr r, st)"
  by (subst run_task_with_deps.simps) simp

lemma run_task_with_deps_cycle:
  "map_of (dg_results st) t = None \<Longrightarrow> t \<in> dg_in_progress st \<Longrightarrow>
   run_task_with_deps tasks deps t st = (Inl (circular t), st)"
  by (subst run_task_with_deps.simps) simp

lemma run_task_with_deps_deps_fail:
  "map_of (dg_results st) t = None \<Longrightarrow> t \<notin> dg_in_progress st \<Longrightarrow>
   await_each tasks deps (dict_get deps t [])
     (st\<lparr>dg_in_progress := insert t (dg_in_progress st)\<rparr>) = (Inl e, st1) \<Longrightarrow>
   run_task_with_deps tasks deps t st = (Inl e, st1)"
  by (subst run_task_with_deps.simps) simp

lemma run_task_with_deps_no_task:
  "map_of (dg_results st) t = None \<Longrightarrow> t \<notin> dg_in_progress st \<Longrightarrow>
   await_each tasks deps (dict_get deps t [])
     (st\<lparr>dg_in_progress := insert t (dg_in_progress st)\<rparr>) = (Inr u, st1) \<Longrightarrow>
   map_of tasks t = None \<Longrightarrow>
   run_task_with_deps tasks deps t st = (Inl (KeyError t), st1)"
  by (subst run_task_with_deps.simps) simp

lemma run_task_with_deps_unit_fail:
  "map_of (dg_results st) t = None \<Longrightarrow> t \<notin> dg_in_progress st \<Longrightarrow>
   await_each tasks deps (dict_get deps t [])
     (st\<lparr>dg_in_progress := insert t (dg_in_progress st)\<rparr>) = (Inr u, st1) \<Longrightarrow>
   map_of tasks t = Some task \<Longrightarrow> run_task task (dg_world st1) = (Inl e, w) \<Longrightarrow>
   run_task_with_deps tasks deps t st = (Inl e, st1\<lparr>dg_world := w\<rparr>)"
  by (subst run_task_with_deps.simps) simp

lemma run_task_with_deps_run:
  "map_of (dg_results st) t = None \<Longrightarrow> t \<notin> dg_in_progress st \<Longrightarrow>
   await_each tasks deps (dict_get deps t [])
     (st\<lparr>dg_in_progress := insert t (dg_in_progress st)\<rparr>) = (Inr u, st1) \<Longrightarrow>
   map_of tasks t = Some task \<Longrightarrow> run_task task (dg_world st1) = (Inr v, w) \<Longrightarrow>
   t \<in> dg_in_progress st1 \<Longrightarrow>
   run_task_with_deps tasks deps t st =
     (Inr v, st1\<lparr>dg_world := w, dg_results := AList.update t v (dg_results st1),
                 dg_in_progress := dg_in_progress st1 - {t}\<rparr>)"
  by (subst run_task_with_deps.simps) simp

lemma dg_main:
  "dg_inv tasks deps st \<Longrightarrow> path_inv deps st {t} \<Longrightarrow>
     task_post tasks deps t st (run_task_with_deps tasks deps t st)"
  "dg_inv tasks deps st \<Longrightarrow> path_inv deps st (set ds) \<Longrightarrow>
     each_post tasks deps ds st (await_each tasks deps ds st)"
proof (induction tasks deps t st and tasks deps ds st rule: run_task_with_deps_await_each.induct)
  case (1 tasks deps t st)
  let ?E = "edges deps"
  show ?case
  proof (cases "map_of (dg_results st) t")
    case (Some r)
    then have "t \<in> set (keys st)" by (auto simp: keys_def dest: map_of_SomeD intro: rev_image_eqI)
    then have "resolves deps (keys st) t (keys st)" by (rule resolves_resolves_all.cached)
    then show ?thesis
      using Some run_task_with_deps_cached[OF Some, of tasks deps] step_ok_refl[OF "1.prems"(1)]
      by (auto simp: task_post_def)
  next
    case None
    then have tk: "t \<notin> set (keys st)" by (simp add: keys_def map_of_eq_None_iff)
    show ?thesis
    proof (cases "t \<in> dg_in_progress st")
      case True
      then have "(t, t) \<in> ?E\<^sup>+" using "1.prems"(2) by (simp add: path_inv_def)
      then have "dg_error tasks deps (insert t (Range ?E)) (circular t)"
        unfolding dg_error_def by blast
      then show ?thesis
        using run_task_with_deps_cycle[OF None True, of tasks deps] by (simp add: task_post_def)
    next
      case False
      let ?ds = "dict_get deps t []"
      let ?st1 = "st\<lparr>dg_in_progress := insert t (dg_in_progress st)\<rparr>"
      have k1: "keys ?st1 = keys st" by (simp add: keys_def)
      have inv1: "dg_inv tasks deps ?st1"
        using "1.prems"(1) tk unfolding dg_inv_def k1 by simp
      have path1: "path_inv deps ?st1 (set ?ds)"
        unfolding path_inv_def
      proof (intro ballI)
        fix p d assume p: "p \<in> dg_in_progress ?st1" and d: "d \<in> set ?ds"
        have td: "(t, d) \<in> ?E" using d by (simp add: edges_iff)
        show "(p, d) \<in> ?E\<^sup>+"
        proof (cases "p = t")
          case True
          then show ?thesis using td by blast
        next
          case False
          then have "p \<in> dg_in_progress st" using p by simp
          then have "(p, t) \<in> ?E\<^sup>+" using "1.prems"(2) by (simp add: path_inv_def)
          then show ?thesis using td by (rule trancl_into_trancl)
        qed
      qed
      have post: "each_post tasks deps ?ds ?st1 (await_each tasks deps ?ds ?st1)"
        using "1.IH"[OF None False inv1 path1] .
      obtain r st2 where aw: "await_each tasks deps ?ds ?st1 = (r, st2)" by (metis prod.collapse)
      have sub: "set ?ds \<union> Range ?E \<subseteq> insert t (Range ?E)"
        by (auto simp: edges_iff Range_iff)
      show ?thesis
      proof (cases r)
        case (Inl e)
        then have "dg_error tasks deps (set ?ds \<union> Range ?E) e"
          using post aw by (simp add: each_post_def)
        then have "dg_error tasks deps (insert t (Range ?E)) e"
          using sub by (rule dg_error_mono)
        then show ?thesis
          using run_task_with_deps_deps_fail[OF None False, of tasks deps e st2] aw Inl
          by (simp add: task_post_def)
      next
        case (Inr u)
        from post aw Inr obtain new where
          so: "step_ok tasks deps ?st1 st2 new"
          and ra: "resolves_all deps (keys ?st1) ?ds (keys st2)"
          and dsub: "set ?ds \<subseteq> set (keys st2)"
          by (auto simp: each_post_def)
        have aw': "await_each tasks deps ?ds ?st1 = (Inr u, st2)" using aw Inr by simp
        have ip2: "dg_in_progress st2 = insert t (dg_in_progress st)"
          using so by (simp add: step_ok_def)
        have inv2: "dg_inv tasks deps st2" using so by (simp add: step_ok_def)
        have tk2: "t \<notin> set (keys st2)" using inv2 ip2 by (auto simp: dg_inv_def)
        show ?thesis
        proof (cases "map_of tasks t")
          case None' : None
          have "dg_error tasks deps (insert t (Range ?E)) (KeyError t)"
            unfolding dg_error_def using None' by (auto simp: map_of_eq_None_iff)
          then show ?thesis
            using run_task_with_deps_no_task[OF None False aw' None'] by (simp add: task_post_def)
        next
          case (Some task)
          have tin: "task \<in> snd ` set tasks" using Some by (auto dest: map_of_SomeD intro: rev_image_eqI)
          obtain r2 w where rt: "run_task task (dg_world st2) = (r2, w)" by (metis prod.collapse)
          show ?thesis
          proof (cases r2)
            case (Inl e)
            have "fst (call task (env (dg_world st2))) = Inl e"
              using rt Inl run_task_fst[of task "dg_world st2"] by simp
            then have "unit_failure tasks e" using tin unfolding unit_failure_def by blast
            then have "dg_error tasks deps (insert t (Range ?E)) e" by (simp add: dg_error_def)
            then show ?thesis
              using run_task_with_deps_unit_fail[OF None False aw' Some, of e w] rt Inl
              by (simp add: task_post_def)
          next
            case (Inr v)
            let ?st3 = "st2\<lparr>dg_world := w, dg_results := AList.update t v (dg_results st2),
                 dg_in_progress := dg_in_progress st2 - {t}\<rparr>"
            have res: "run_task_with_deps tasks deps t st = (Inr v, ?st3)"
              using run_task_with_deps_run[OF None False aw' Some, of v w] rt Inr ip2 by simp
            have upd: "AList.update t v (dg_results st2) = dg_results st2 @ [(t, v)]"
              using tk2 by (intro update_fresh) (simp add: keys_def)
            have k3: "keys ?st3 = keys st2 @ [t]" using upd by (simp add: keys_def)
            have ip3: "dg_in_progress ?st3 = dg_in_progress st" using ip2 False by simp
            have cv: "fst (call task (env (dg_world st2))) = Inr v"
              using rt Inr run_task_fst[of task "dg_world st2"] by simp
            then have rb: "returned_by task v" unfolding returned_by_def by blast
            have ro: "resolved_order deps (keys st2 @ [t])"
              using inv2 tk2 dsub by (intro resolved_order_snoc) (simp_all add: dg_inv_def)
            have inv3: "dg_inv tasks deps ?st3"
              unfolding dg_inv_def
            proof (intro conjI)
              show "set (keys ?st3) \<inter> dg_in_progress ?st3 = {}"
                using inv2 ip2 False unfolding k3 by (auto simp: dg_inv_def)
              show "resolved_order deps (keys ?st3)" unfolding k3 by (rule ro)
              show "\<forall>(x, v)\<in>set (dg_results ?st3). \<exists>u. map_of tasks x = Some u \<and> returned_by u v"
                using inv2 Some rb upd by (auto simp: dg_inv_def)
            qed
            have tr: "trace w = trace (dg_world st2) @ [Invoke task, Finish task]"
              using run_task_trace[of task "dg_world st2"] rt cv by simp
            from so obtain evs us where
              k2: "keys st2 = keys ?st1 @ new"
              and t2: "trace (dg_world st2) = trace (dg_world ?st1) @ evs"
              and l2: "list_all2 (\<lambda>x u. map_of tasks x = Some u) new us"
              and f2: "filter is_invoke evs = map Invoke us"
              unfolding step_ok_def by auto
            have so3: "step_ok tasks deps st ?st3 (new @ [t])"
              unfolding step_ok_def
            proof (intro conjI exI)
              show "dg_in_progress ?st3 = dg_in_progress st" by (rule ip3)
              show "dg_inv tasks deps ?st3" by (rule inv3)
              show "keys ?st3 = keys st @ new @ [t]" using k3 k2 k1 by simp
              show "trace (dg_world ?st3) = trace (dg_world st) @ (evs @ [Invoke task, Finish task])"
                using tr t2 by simp
              show "list_all2 (\<lambda>x u. map_of tasks x = Some u) (new @ [t]) (us @ [task])"
                using l2 Some by (simp add: list_all2_appendI)
              show "filter is_invoke (evs @ [Invoke task, Finish task]) = map Invoke (us @ [task])"
                using f2 by simp
            qed
            have rs: "resolves deps (keys st) t (keys ?st3)"
              unfolding k3 using tk ra[unfolded k1] by (rule resolves_resolves_all.fresh)
            have mo: "map_of (dg_results ?st3) t = Some v"
              using upd tk2 by (simp add: keys_def map_add_def map_of_eq_None_iff[THEN iffD2])
            show ?thesis
              unfolding res task_post_def using so3 rs mo by auto
          qed
        qed
      qed
    qed
  qed
next
  case (2 tasks deps st)
  have "resolves_all deps (keys st) [] (keys st)" by (rule resolves_resolves_all.none)
  then show ?case
    using step_ok_refl[OF "2.prems"(1)] by (auto simp: each_post_def)
next
  case (3 tasks deps dep ds st)
  let ?E = "edges deps"
  have p1: "path_inv deps st {dep}" using "3.prems"(2) by (simp add: path_inv_def)
  have post1: "task_post tasks deps dep st (run_task_with_deps tasks deps dep st)"
    using "3.IH"(1)[OF "3.prems"(1) p1] .
  obtain r st1 where r: "run_task_with_deps tasks deps dep st = (r, st1)"
    by (metis prod.collapse)
  show ?case
  proof (cases r)
    case (Inl e)
    then have "dg_error tasks deps (insert dep (Range ?E)) e"
      using post1 r by (simp add: task_post_def)
    then have "dg_error tasks deps (set (dep # ds) \<union> Range ?E) e"
      by (rule dg_error_mono) auto
    then show ?thesis using r Inl by (simp add: each_post_def)
  next
    case (Inr v)
    from post1 r Inr obtain new1 where
      so1: "step_ok tasks deps st st1 new1"
      and rs1: "resolves deps (keys st) dep (keys st1)"
      and mo1: "map_of (dg_results st1) dep = Some v"
      by (auto simp: task_post_def)
    have inv1: "dg_inv tasks deps st1" and ip1: "dg_in_progress st1 = dg_in_progress st"
      using so1 by (simp_all add: step_ok_def)
    have p2: "path_inv deps st1 (set ds)" using "3.prems"(2) ip1 by (simp add: path_inv_def)
    have post2: "each_post tasks deps ds st1 (await_each tasks deps ds st1)"
      using "3.IH"(2)[OF r[symmetric] Inr inv1 p2] .
    have din: "dep \<in> set (keys st1)"
      using mo1 by (auto simp: keys_def dest: map_of_SomeD intro: rev_image_eqI)
    obtain r2 st2 where r2: "await_each tasks deps ds st1 = (r2, st2)" by (metis prod.collapse)
    have unf: "await_each tasks deps (dep # ds) st = await_each tasks deps ds st1"
      using r Inr by simp
    show ?thesis
    proof (cases r2)
      case (Inl e)
      then have "dg_error tasks deps (set ds \<union> Range ?E) e"
        using post2 r2 by (simp add: each_post_def)
      then have "dg_error tasks deps (set (dep # ds) \<union> Range ?E) e"
        by (rule dg_error_mono) auto
      then show ?thesis using unf r2 Inl by (simp add: each_post_def)
    next
      case Inr2: (Inr u)
      from post2 r2 Inr2 obtain new2 where
        so2: "step_ok tasks deps st1 st2 new2"
        and rs2: "resolves_all deps (keys st1) ds (keys st2)"
        and sub2: "set ds \<subseteq> set (keys st2)"
        by (auto simp: each_post_def)
      have so: "step_ok tasks deps st st2 (new1 @ new2)" using so1 so2 by (rule step_ok_trans)
      have "keys st2 = keys st1 @ new2" using so2 by (simp add: step_ok_def)
      then have din2: "dep \<in> set (keys st2)" using din by simp
      have ra: "resolves_all deps (keys st) (dep # ds) (keys st2)"
        using rs1 rs2 by (rule resolves_resolves_all.more)
      show ?thesis
        unfolding unf r2 Inr2 each_post_def using so ra sub2 din2 by auto
    qed
  qed
qed

lemma resolved_order_descends:
  assumes ro: "resolved_order deps ks"
  shows "(a, y) \<in> (edges deps)\<^sup>+ \<Longrightarrow> a = ks ! i \<Longrightarrow> i < length ks \<Longrightarrow> \<exists>j<i. y = ks ! j"
proof (induction arbitrary: rule: trancl_induct)
  case (base y)
  then have "y \<in> set (take i ks)"
    using ro unfolding resolved_order_def by (auto simp: edges_iff)
  then obtain j where "j < length (take i ks)" "take i ks ! j = y"
    by (metis in_set_conv_nth)
  then show ?case by auto
next
  case (step y z)
  then obtain j where j: "j < i" "y = ks ! j" by blast
  then have jl: "j < length ks" using step.prems by simp
  have "z \<in> set (take j ks)"
    using ro step.hyps(2) j jl unfolding resolved_order_def by (auto simp: edges_iff)
  then obtain j' where "j' < length (take j ks)" "take j ks ! j' = z"
    by (metis in_set_conv_nth)
  then have "j' < i" "z = ks ! j'" using j by auto
  then show ?case by blast
qed

lemma resolved_order_no_cycle:
  assumes "resolved_order deps ks" and "x \<in> set ks"
  shows "(x, x) \<notin> (edges deps)\<^sup>+"
proof
  assume c: "(x, x) \<in> (edges deps)\<^sup>+"
  from assms(2) obtain i where i: "i < length ks" "ks ! i = x" by (metis in_set_conv_nth)
  from resolved_order_descends[OF assms(1) c i(2)[symmetric] i(1)]
  obtain j where j: "j < i" "x = ks ! j" by blast
  have "distinct ks" using assms(1) by (simp add: resolved_order_def)
  then show False using i j by (simp add: nth_eq_iff_index_eq)
qed

lemma resolved_order_closed:
  assumes "resolved_order deps ks"
  shows "(a, b) \<in> (edges deps)\<^sup>* \<Longrightarrow> a \<in> set ks \<Longrightarrow> b \<in> set ks"
proof (induction rule: rtrancl_induct)
  case base
  then show ?case by simp
next
  case (step y z)
  then have "y \<in> set ks" by simp
  then obtain i where i: "i < length ks" "ks ! i = y" by (metis in_set_conv_nth)
  have "z \<in> set (take i ks)"
    using assms step.hyps(2) i unfolding resolved_order_def by (auto simp: edges_iff)
  then show ?case by (meson in_set_takeD)
qed

lemma dg_initial:
  "dg_inv tasks deps \<lparr>dg_results = [], dg_in_progress = {}, dg_world = w\<rparr>"
  "path_inv deps \<lparr>dg_results = [], dg_in_progress = {}, dg_world = w\<rparr> A"
  by (simp_all add: dg_inv_def path_inv_def keys_def resolved_order_def)

lemma dg_top:
  "each_post tasks deps (map fst tasks) \<lparr>dg_results = [], dg_in_progress = {}, dg_world = w\<rparr>
     (await_each tasks deps (map fst tasks)
        \<lparr>dg_results = [], dg_in_progress = {}, dg_world = w\<rparr>)"
  by (rule dg_main(2)[OF dg_initial])

lemma dg_cases:
  "(\<exists>results. dg_returns tasks deps w results) \<or>
   (\<exists>e. fst (run_with_dependency_graph tasks deps w) = Inl e \<and>
      dg_error tasks deps (fst ` set tasks \<union> Range (edges deps)) e)"
proof -
  let ?st0 = "\<lparr>dg_results = [], dg_in_progress = {}, dg_world = w\<rparr>"
  obtain r st' where a: "await_each tasks deps (map fst tasks) ?st0 = (r, st')"
    by (metis prod.collapse)
  show ?thesis
  proof (cases r)
    case (Inl e)
    then have "dg_error tasks deps (fst ` set tasks \<union> Range (edges deps)) e"
      using dg_top[of tasks deps w] a by (simp add: each_post_def)
    moreover have "fst (run_with_dependency_graph tasks deps w) = Inl e"
      using a Inl by (simp add: run_with_dependency_graph_def)
    ultimately show ?thesis by blast
  next
    case (Inr u)
    from dg_top[of tasks deps w] a Inr obtain new where
      so: "step_ok tasks deps ?st0 st' new"
      and ra: "resolves_all deps (keys ?st0) (map fst tasks) (keys st')"
      and sub: "set (map fst tasks) \<subseteq> set (keys st')"
      by (auto simp: each_post_def)
    have run: "run_with_dependency_graph tasks deps w = (Inr (dg_results st'), dg_world st')"
      using a Inr by (simp add: run_with_dependency_graph_def)
    from so obtain evs us where
      inv: "dg_inv tasks deps st'" and k: "keys st' = new"
      and t: "trace (dg_world st') = trace w @ evs"
      and l: "list_all2 (\<lambda>x u. map_of tasks x = Some u) new us"
      and f: "filter is_invoke evs = map Invoke us"
      unfolding step_ok_def by (auto simp: keys_def)
    have ro: "resolved_order deps (keys st')" using inv by (simp add: dg_inv_def)
    have vals: "\<forall>(x, v)\<in>set (dg_results st'). \<exists>u. map_of tasks x = Some u \<and> returned_by u v"
      using inv by (simp add: dg_inv_def)
    have "set (keys st') \<subseteq> fst ` set tasks"
    proof
      fix x assume "x \<in> set (keys st')"
      then obtain v where "(x, v) \<in> set (dg_results st')" by (auto simp: keys_def)
      with vals obtain u where "map_of tasks x = Some u" by blast
      then show "x \<in> fst ` set tasks" by (auto dest: map_of_SomeD intro: rev_image_eqI)
    qed
    with sub have ks: "set (keys st') = fst ` set tasks" by auto
    have "dg_returns tasks deps w (dg_results st')"
      unfolding dg_returns_def
    proof (intro conjI exI)
      show "fst (run_with_dependency_graph tasks deps w) = Inr (dg_results st')" using run by simp
      show "distinct (map fst (dg_results st'))" using ro by (simp add: resolved_order_def keys_def)
      show "set (map fst (dg_results st')) = fst ` set tasks" using ks by (simp add: keys_def)
      show "resolved_order deps (map fst (dg_results st'))" using ro by (simp add: keys_def)
      show "resolves_all deps [] (map fst tasks) (map fst (dg_results st'))"
        using ra by (simp add: keys_def)
      show "list_all2 (\<lambda>x u. map_of tasks x = Some u) (map fst (dg_results st')) us"
        using l k by (simp add: keys_def)
      show "filter is_invoke (since w (snd (run_with_dependency_graph tasks deps w))) = map Invoke us"
        using run since_append[OF t] f by simp
      show "list_all (\<lambda>(x, v). \<exists>u. map_of tasks x = Some u \<and> returned_by u v) (dg_results st')"
        using vals by (simp add: list_all_iff)
    qed
    then show ?thesis by blast
  qed
qed




text \<open>
  Claim C1, as the code has it. When a cycle of the dependency map can be reached from a
  task, the run returns no mapping: it raises. What it raises is the cycle error naming a
  name that lies on a cycle, the \<^verbatim>\<open>KeyError\<close> of a name that is not a task, or an exception
  raised by the unit of a task. When all prerequisites are task names and
  every unit succeeds, it is the cycle error.
\<close>

theorem run_with_dependency_graph_cycle:
  assumes "t \<in> fst ` set tasks"
    and "(t, x) \<in> (edges dependencies)\<^sup>*"
    and "(x, x) \<in> (edges dependencies)\<^sup>+"
  shows "(\<exists>e. fst (run_with_dependency_graph tasks dependencies w) = Inl e \<and>
            ((\<exists>y. e = circular y \<and> (y, y) \<in> (edges dependencies)\<^sup>+) \<or>
             (\<exists>y. e = KeyError y \<and> y \<notin> fst ` set tasks) \<or>
             unit_failure tasks e)) \<and>
         (Range (edges dependencies) \<subseteq> fst ` set tasks \<and>
          (\<forall>u\<in>snd ` set tasks. \<forall>s. \<not> isl (fst (call u s))) \<longrightarrow>
            (\<exists>y. fst (run_with_dependency_graph tasks dependencies w) = Inl (circular y) \<and>
                 (y, y) \<in> (edges dependencies)\<^sup>+))"
proof -
  let ?run = "run_with_dependency_graph tasks dependencies w"
  let ?E = "edges dependencies"
  have no: "\<not> dg_returns tasks dependencies w results" for results
  proof
    assume r: "dg_returns tasks dependencies w results"
    then have ro: "resolved_order dependencies (map fst results)"
      and ks: "set (map fst results) = fst ` set tasks"
      by (simp_all add: dg_returns_def)
    have "t \<in> set (map fst results)" using assms(1) ks by simp
    then have "x \<in> set (map fst results)"
      using resolved_order_closed[OF ro assms(2)] by simp
    then show False using resolved_order_no_cycle[OF ro] assms(3) by blast
  qed
  with dg_cases[of tasks dependencies w] obtain e where
    e: "fst ?run = Inl e" and d: "dg_error tasks dependencies (fst ` set tasks \<union> Range ?E) e"
    by blast
  have first: "\<exists>e. fst ?run = Inl e \<and>
            ((\<exists>y. e = circular y \<and> (y, y) \<in> ?E\<^sup>+) \<or>
             (\<exists>y. e = KeyError y \<and> y \<notin> fst ` set tasks) \<or>
             unit_failure tasks e)"
    using e d unfolding dg_error_def by blast
  have second: "\<exists>y. fst ?run = Inl (circular y) \<and> (y, y) \<in> ?E\<^sup>+"
    if c: "Range ?E \<subseteq> fst ` set tasks"
      and s: "\<forall>u\<in>snd ` set tasks. \<forall>s. \<not> isl (fst (call u s))"
  proof -
    have "\<not> unit_failure tasks e"
      using s unfolding unit_failure_def by (metis sum.disc(1))
    moreover have "\<not> (\<exists>y. e = KeyError y \<and> y \<notin> fst ` set tasks \<and> y \<in> fst ` set tasks \<union> Range ?E)"
      using c by blast
    ultimately have "\<exists>y. e = circular y \<and> (y, y) \<in> ?E\<^sup>+"
      using d unfolding dg_error_def by blast
    then show ?thesis using e by blast
  qed
  show ?thesis using first second by blast
qed

theorem run_with_dependency_graph_cycle_witness:
  "''A'' \<in> fst ` set [(''A'', succeeding ''noop'' (0::nat) 1), (''B'', succeeding ''noop'' 0 1)] \<and>
   (''A'', ''A'') \<in> (edges [(''A'', [''B'']), (''B'', [''A''])])\<^sup>* \<and>
   (''A'', ''A'') \<in> (edges [(''A'', [''B'']), (''B'', [''A''])])\<^sup>+ \<and>
   isl (fst (run_with_dependency_graph
     [(''A'', succeeding ''noop'' (0::nat) 1), (''B'', succeeding ''noop'' 0 1)]
     [(''A'', [''B'']), (''B'', [''A''])] fresh)) \<and>
   fst (run_with_dependency_graph
     [(''A'', succeeding ''noop'' (0::nat) 1), (''B'', succeeding ''noop'' 0 1)]
     [(''A'', [''B'']), (''B'', [''A''])] fresh) = Inl (circular ''A'')"
proof -
  let ?tasks = "[(''A'', succeeding ''noop'' (0::nat) 1), (''B'', succeeding ''noop'' 0 1)]"
  let ?deps = "[(''A'', [''B'']), (''B'', [''A''])]"
  have t: "''A'' \<in> fst ` set ?tasks" by simp
  have "(''A'', ''B'') \<in> edges ?deps" "(''B'', ''A'') \<in> edges ?deps"
    by (simp_all add: edges_def dict_get_def)
  then have c: "(''A'', ''A'') \<in> (edges ?deps)\<^sup>+" by (meson trancl.intros)
  have re: "(''A'', ''A'') \<in> (edges ?deps)\<^sup>*" by simp
  have "\<exists>e. fst (run_with_dependency_graph ?tasks ?deps fresh) = Inl e \<and>
            ((\<exists>y. e = circular y \<and> (y, y) \<in> (edges ?deps)\<^sup>+) \<or>
             (\<exists>y. e = KeyError y \<and> y \<notin> fst ` set ?tasks) \<or>
             unit_failure ?tasks e)"
    using run_with_dependency_graph_cycle[OF t re c, of fresh] by (elim conjE)
  then have l: "isl (fst (run_with_dependency_graph ?tasks ?deps fresh))"
    by (elim exE conjE) simp
  have r: "fst (run_with_dependency_graph ?tasks ?deps fresh) = Inl (circular ''A'')"
    by (simp add: run_with_dependency_graph_def run_task_with_deps.simps dict_get_def)
  show ?thesis
    by (intro conjI; fact t re c l r)
qed

text \<open>
  The claim as worded, for every task mapping, does not hold: with a task \<open>C\<close> whose unit
  raises listed before the tasks \<open>A\<close> and \<open>B\<close> of the cycle, the run raises the exception of
  that unit, not the cycle error.
\<close>

theorem run_with_dependency_graph_cycle_counterexample:
  "''A'' \<in> fst ` set [(''C'', failing ''c'' ''boom'' 1),
      (''A'', succeeding ''noop'' (0::nat) 1), (''B'', succeeding ''noop'' 0 1)] \<and>
   (''A'', ''A'') \<in> (edges [(''A'', [''B'']), (''B'', [''A''])])\<^sup>+ \<and>
   fst (run_with_dependency_graph
     [(''C'', failing ''c'' ''boom'' 1),
      (''A'', succeeding ''noop'' (0::nat) 1), (''B'', succeeding ''noop'' 0 1)]
     [(''A'', [''B'']), (''B'', [''A''])] fresh) = Inl (RuntimeError ''boom'')"
proof -
  let ?tasks = "[(''C'', failing ''c'' ''boom'' 1),
      (''A'', succeeding ''noop'' (0::nat) 1), (''B'', succeeding ''noop'' 0 1)]"
  let ?deps = "[(''A'', [''B'']), (''B'', [''A''])]"
  have t: "''A'' \<in> fst ` set ?tasks" by simp
  have "(''A'', ''B'') \<in> edges ?deps" "(''B'', ''A'') \<in> edges ?deps"
    by (simp_all add: edges_def dict_get_def)
  then have c: "(''A'', ''A'') \<in> (edges ?deps)\<^sup>+" by (meson trancl.intros)
  have r: "fst (run_with_dependency_graph ?tasks ?deps fresh) = Inl (RuntimeError ''boom'')"
    by (simp add: run_with_dependency_graph_def run_task_with_deps.simps dict_get_def
        run_task_def complete_def dispatch_def emit_def logger_def fresh_def succeeding_def
        failing_def)
  show ?thesis
    by (intro conjI; fact t c r)
qed

section \<open>Properties of the concurrency-bounded runner\<close>

lemma dispatched_append: "dispatched (xs @ ys) = dispatched xs + dispatched ys"
  by (simp add: dispatched_def)

lemma completed_append: "completed (xs @ ys) = completed xs + completed ys"
  by (simp add: completed_def)

lemma in_flight_append: "in_flight (xs @ ys) = in_flight xs + in_flight ys"
  by (simp add: in_flight_def dispatched_append completed_append)

lemma never_more_than_le:
  "never_more_than k evs \<longleftrightarrow> (\<forall>n\<le>length evs. in_flight (take n evs) \<le> int k)"
  by (auto simp add: never_more_than_def list_all_iff less_Suc_eq_le simp del: upt_Suc)

lemma never_more_than_snoc:
  "never_more_than k (evs @ [e]) \<longleftrightarrow> never_more_than k evs \<and> in_flight (evs @ [e]) \<le> int k"
proof
  assume a: "never_more_than k (evs @ [e])"
  have "in_flight (take n evs) \<le> int k" if "n \<le> length evs" for n
  proof -
    have "n \<le> length (evs @ [e])" using that by simp
    then have "in_flight (take n (evs @ [e])) \<le> int k"
      using a unfolding never_more_than_le by blast
    then show ?thesis using that by simp
  qed
  moreover have "Suc (length evs) \<le> length (evs @ [e])" by simp
  then have "in_flight (take (Suc (length evs)) (evs @ [e])) \<le> int k"
    using a unfolding never_more_than_le by blast
  then have "in_flight (evs @ [e]) \<le> int k" by simp
  ultimately show "never_more_than k evs \<and> in_flight (evs @ [e]) \<le> int k"
    by (simp add: never_more_than_le)
next
  assume a: "never_more_than k evs \<and> in_flight (evs @ [e]) \<le> int k"
  show "never_more_than k (evs @ [e])"
    unfolding never_more_than_le
  proof (intro allI impI)
    fix n
    assume "n \<le> length (evs @ [e])"
    then show "in_flight (take n (evs @ [e])) \<le> int k"
      using a by (cases "n \<le> length evs") (simp_all add: never_more_than_le)
  qed
qed

lemma never_more_than_whole: "never_more_than k evs \<Longrightarrow> in_flight evs \<le> int k"
  unfolding never_more_than_le by (metis order_refl take_all)

lemma quiet_counts:
  assumes "\<forall>e\<in>set logs. \<not> is_invoke e \<and> \<not> is_finish e"
  shows "dispatched logs = 0" and "completed logs = 0" and "filter is_invoke logs = []"
  using assms by (auto simp: dispatched_def completed_def filter_empty_conv)

lemma never_more_than_quiet:
  "\<forall>e\<in>set logs. \<not> is_invoke e \<and> \<not> is_finish e \<Longrightarrow>
     never_more_than k (evs @ logs) = never_more_than k evs"
proof (induction logs rule: rev_induct)
  case Nil
  show ?case by simp
next
  case (snoc e logs)
  have q: "\<forall>e\<in>set logs. \<not> is_invoke e \<and> \<not> is_finish e" and e: "\<not> is_invoke e" "\<not> is_finish e"
    using snoc.prems by simp_all
  have "never_more_than k ((evs @ logs) @ [e]) =
          (never_more_than k (evs @ logs) \<and> in_flight ((evs @ logs) @ [e]) \<le> int k)"
    by (rule never_more_than_snoc)
  moreover have "in_flight ((evs @ logs) @ [e]) = in_flight evs"
    using e quiet_counts(1,2)[OF q]
    by (simp add: in_flight_def dispatched_append completed_append) (simp add: dispatched_def completed_def)
  moreover have "never_more_than k evs \<Longrightarrow> in_flight evs \<le> int k"
    by (rule never_more_than_whole)
  ultimately show ?case using snoc.IH[OF q] by auto
qed

lemma dispatched_invokes: "dispatched (map Invoke us) = length us"
  by (induction us) (simp_all add: dispatched_def)

lemma completed_invokes: "completed (map Invoke us) = 0"
  by (induction us) (simp_all add: completed_def)

lemma never_more_than_invokes: "length us \<le> k \<Longrightarrow> never_more_than k (map Invoke us)"
  unfolding never_more_than_le
  by (simp add: in_flight_def dispatched_invokes completed_invokes take_map)

lemma filter_invokes: "filter is_invoke (map Invoke us) = map Invoke us"
  by (induction us) simp_all

lemma complete_finish_trace:
  "\<exists>logs. trace (snd (complete u w)) = trace w @ Finish u # logs \<and>
          (\<forall>e\<in>set logs. \<not> is_invoke e \<and> \<not> is_finish e)"
  by (auto simp: complete_def emit_def logger_def split: prod.splits sum.splits)

lemma startup:
  "i \<le> length tasks \<Longrightarrow>
   fold (acquire tasks) [0..<i]
     \<lparr>sem_value = k, sem_waiters = [], sem_woken = [], sem_running = [], sem_slots = sl,
      sem_raised = None, sem_world = w\<rparr> =
   \<lparr>sem_value = k - min i k, sem_waiters = [min i k..<i], sem_woken = [],
    sem_running = [0..<min i k], sem_slots = sl, sem_raised = None,
    sem_world = w\<lparr>trace := trace w @ map Invoke (take (min i k) tasks)\<rparr>\<rparr>"
proof (induction i)
  case 0
  show ?case by simp
next
  case (Suc i)
  let ?s0 = "\<lparr>sem_value = k, sem_waiters = [], sem_woken = [], sem_running = [], sem_slots = sl,
      sem_raised = None, sem_world = w\<rparr>"
  have i: "i < length tasks" and IH: "fold (acquire tasks) [0..<i] ?s0 =
   \<lparr>sem_value = k - min i k, sem_waiters = [min i k..<i], sem_woken = [],
    sem_running = [0..<min i k], sem_slots = sl, sem_raised = None,
    sem_world = w\<lparr>trace := trace w @ map Invoke (take (min i k) tasks)\<rparr>\<rparr>"
    using Suc by simp_all
  have unf: "fold (acquire tasks) [0..<Suc i] ?s0 = acquire tasks i (fold (acquire tasks) [0..<i] ?s0)"
    by simp
  show ?case
  proof (cases "i < k")
    case True
    then have m: "min i k = i" "min (Suc i) k = Suc i" by simp_all
    show ?thesis
      unfolding unf IH m
      using True i
      by (simp add: acquire_def dispatch_def emit_def take_Suc_conv_app_nth Suc_diff_Suc)
  next
    case False
    then have m: "min i k = k" "min (Suc i) k = k" by simp_all
    show ?thesis
      unfolding unf IH m
      using False i
      by (simp add: acquire_def)
  qed
qed

lemma start_eq:
  "start tasks k w =
   \<lparr>sem_value = k - min (length tasks) k, sem_waiters = [min (length tasks) k..<length tasks],
    sem_woken = [], sem_running = [0..<min (length tasks) k],
    sem_slots = replicate (length tasks) None, sem_raised = None,
    sem_world = w\<lparr>trace := trace w @ map Invoke (take k tasks)\<rparr>\<rparr>"
proof -
  have "take (min (length tasks) k) tasks = take k tasks" by (simp add: min_def)
  then show ?thesis unfolding start_def startup[OF order_refl] by simp
qed

lemma sem_inv_start: "sem_inv tasks k w (start tasks k w)"
proof -
  let ?n = "length tasks"
  let ?tr = "map Invoke (take k tasks)"
  let ?st = "start tasks k w"
  have d: "dispatched ?tr = min ?n k" by (simp add: dispatched_invokes)
  have c: "completed ?tr = 0" by (simp add: completed_invokes)
  have ad: "admitted tasks k ?tr = min ?n k" by (simp add: admitted_def c)
  have nm: "never_more_than k ?tr" by (rule never_more_than_invokes) simp
  have fi: "filter is_invoke ?tr = map Invoke (take (dispatched ?tr) tasks)"
    unfolding d filter_invokes by (simp add: min_def)
  have fl: "in_flight ?tr = int (length (sem_running ?st))"
    by (simp add: in_flight_def d c start_eq)
  have t: "trace (sem_world ?st) = trace w @ ?tr" by (simp add: start_eq)
  have v: "sem_value ?st + length (sem_woken ?st) + length (sem_running ?st) = k"
    by (simp add: start_eq)
  have z: "sem_waiters ?st \<noteq> [] \<longrightarrow> sem_value ?st = 0"
    by (simp add: start_eq min_def)
  have q: "sem_waiters ?st = [admitted tasks k ?tr..<?n]"
    by (simp add: start_eq ad)
  have wk: "sem_woken ?st = [dispatched ?tr..<admitted tasks k ?tr]"
    by (simp add: start_eq ad d)
  have le: "dispatched ?tr \<le> admitted tasks k ?tr"
    by (simp add: ad d)
  show ?thesis
    unfolding sem_inv_def
    by (intro exI[of _ ?tr] conjI; fact t v z q wk le fl nm fi)
qed

lemma admitted_le: "admitted tasks k evs \<le> length tasks"
  by (simp add: admitted_def)

lemma sem_inv_release:
  assumes inv: "sem_inv tasks k w st"
    and j: "j \<in> set (sem_running st)"
    and v1: "sem_value st1 = sem_value st"
    and q1: "sem_waiters st1 = sem_waiters st"
    and k1: "sem_woken st1 = sem_woken st"
    and r1: "sem_running st1 = remove1 j (sem_running st)"
    and t1: "trace (sem_world st1) = trace (sem_world st) @ Finish u # logs"
    and quiet: "\<forall>e\<in>set logs. \<not> is_invoke e \<and> \<not> is_finish e"
  shows "sem_inv tasks k w (release st1)"
proof -
  let ?n = "length tasks"
  from inv obtain tr where
    t: "trace (sem_world st) = trace w @ tr"
    and v: "sem_value st + length (sem_woken st) + length (sem_running st) = k"
    and z: "sem_waiters st \<noteq> [] \<longrightarrow> sem_value st = 0"
    and q: "sem_waiters st = [admitted tasks k tr..<?n]"
    and wk: "sem_woken st = [dispatched tr..<admitted tasks k tr]"
    and le: "dispatched tr \<le> admitted tasks k tr"
    and fl: "in_flight tr = int (length (sem_running st))"
    and nm: "never_more_than k tr"
    and fi: "filter is_invoke tr = map Invoke (take (dispatched tr) tasks)"
    unfolding sem_inv_def by blast
  let ?tr1 = "tr @ Finish u # logs"
  have len1: "Suc (length (sem_running st1)) = length (sem_running st)"
    using j r1 by (simp add: length_remove1) (metis Suc_pred length_pos_if_in_set)
  have d1: "dispatched ?tr1 = dispatched tr"
    using quiet_counts(1)[OF quiet] by (simp add: dispatched_def)
  have c1: "completed ?tr1 = Suc (completed tr)"
    using quiet_counts(2)[OF quiet] by (simp add: completed_def)
  have a1: "admitted tasks k ?tr1 = min ?n (Suc (k + completed tr))"
    by (simp add: admitted_def c1)
  have t1': "trace (sem_world st1) = trace w @ ?tr1" using t1 t by simp
  have fl1: "in_flight ?tr1 = int (length (sem_running st1))"
    using fl len1 unfolding in_flight_def d1 c1 by simp
  have "in_flight (tr @ [Finish u]) \<le> int k"
    using never_more_than_whole[OF nm] by (simp add: in_flight_def dispatched_def completed_def)
  then have "never_more_than k (tr @ [Finish u])"
    using nm by (simp add: never_more_than_snoc)
  then have nm1: "never_more_than k ?tr1"
    using never_more_than_quiet[OF quiet, of k "tr @ [Finish u]"] by simp
  have fi1: "filter is_invoke ?tr1 = map Invoke (take (dispatched ?tr1) tasks)"
    unfolding d1 using fi quiet_counts(3)[OF quiet] by simp
  show ?thesis
  proof (cases "sem_waiters st")
    case Nil
    then have "[admitted tasks k tr..<?n] = []" using q by simp
    then have "?n \<le> admitted tasks k tr" by auto
    then have full: "admitted tasks k tr = ?n" using admitted_le[of tasks k tr] by simp
    then have full1: "admitted tasks k ?tr1 = ?n"
      unfolding a1 by (simp add: admitted_def min_def split: if_splits)
    let ?st2 = "release st1"
    have rl: "?st2 = st1\<lparr>sem_value := sem_value st1 + 1\<rparr>"
      using Nil q1 by (simp add: release_def)
    have t2: "trace (sem_world ?st2) = trace w @ ?tr1" using t1' by (simp add: rl)
    have v2: "sem_value ?st2 + length (sem_woken ?st2) + length (sem_running ?st2) = k"
      using v len1 v1 k1 by (simp add: rl)
    have z2: "sem_waiters ?st2 \<noteq> [] \<longrightarrow> sem_value ?st2 = 0"
      using Nil q1 by (simp add: rl)
    have q2: "sem_waiters ?st2 = [admitted tasks k ?tr1..<?n]"
      using Nil q1 full1 by (simp add: rl)
    have wk2: "sem_woken ?st2 = [dispatched ?tr1..<admitted tasks k ?tr1]"
      using wk k1 full full1 d1 by (simp add: rl)
    have le2: "dispatched ?tr1 \<le> admitted tasks k ?tr1"
      using le full full1 d1 by simp
    have fl2: "in_flight ?tr1 = int (length (sem_running ?st2))"
      using fl1 by (simp add: rl)
    show ?thesis
      unfolding sem_inv_def
      by (intro exI[of _ ?tr1] conjI; fact t2 v2 z2 q2 wk2 le2 fl2 nm1 fi1)
  next
    case (Cons i rest)
    let ?a = "admitted tasks k tr"
    have "[?a..<?n] = i # rest" using q Cons by simp
    then have i: "i = ?a" and an: "?a < ?n" and rest: "rest = [Suc ?a..<?n]"
      by (auto simp add: upt_eq_Cons_conv)
    have ak: "?a = k + completed tr" using an by (simp add: admitted_def min_def split: if_splits)
    have a1': "admitted tasks k ?tr1 = Suc ?a" unfolding a1 using an ak by simp
    have v0: "sem_value st = 0" using z Cons by simp
    let ?st2 = "release st1"
    have rl: "?st2 = st1\<lparr>sem_waiters := rest, sem_woken := sem_woken st1 @ [i]\<rparr>"
      using Cons q1 by (simp add: release_def)
    have t2: "trace (sem_world ?st2) = trace w @ ?tr1" using t1' by (simp add: rl)
    have v2: "sem_value ?st2 + length (sem_woken ?st2) + length (sem_running ?st2) = k"
      using v len1 v1 k1 by (simp add: rl)
    have z2: "sem_waiters ?st2 \<noteq> [] \<longrightarrow> sem_value ?st2 = 0"
      using v0 v1 by (simp add: rl)
    have q2: "sem_waiters ?st2 = [admitted tasks k ?tr1..<?n]"
      using rest a1' by (simp add: rl)
    have wk2: "sem_woken ?st2 = [dispatched ?tr1..<admitted tasks k ?tr1]"
      using wk k1 i le unfolding a1' d1 by (simp add: rl)
    have le2: "dispatched ?tr1 \<le> admitted tasks k ?tr1"
      using le unfolding a1' d1 by simp
    have fl2: "in_flight ?tr1 = int (length (sem_running ?st2))"
      using fl1 by (simp add: rl)
    show ?thesis
      unfolding sem_inv_def
      by (intro exI[of _ ?tr1] conjI; fact t2 v2 z2 q2 wk2 le2 fl2 nm1 fi1)
  qed
qed

lemma sem_inv_finish:
  assumes inv: "sem_inv tasks k w st" and j: "j \<in> set (sem_running st)"
  shows "sem_inv tasks k w (finish tasks j st)"
proof -
  obtain r w1 where c: "complete (tasks ! j) (sem_world st) = (r, w1)"
    by (cases "complete (tasks ! j) (sem_world st)")
  from complete_finish_trace[of "tasks ! j" "sem_world st"] c obtain logs where
    t1: "trace w1 = trace (sem_world st) @ Finish (tasks ! j) # logs"
    and quiet: "\<forall>e\<in>set logs. \<not> is_invoke e \<and> \<not> is_finish e"
    by auto
  show ?thesis
  proof (cases r)
    case (Inl e)
    let ?st1 = "st\<lparr>sem_running := remove1 j (sem_running st),
        sem_raised := (case sem_raised st of None \<Rightarrow> Some e | Some e' \<Rightarrow> Some e'),
        sem_world := w1\<rparr>"
    have "finish tasks j st = release ?st1" using c Inl by (simp add: finish_def)
    moreover have "sem_inv tasks k w (release ?st1)"
      by (rule sem_inv_release[OF inv j _ _ _ _ _ quiet]) (simp_all add: t1)
    ultimately show ?thesis by simp
  next
    case (Inr result)
    let ?st1 = "st\<lparr>sem_running := remove1 j (sem_running st),
        sem_slots := (sem_slots st)[j := Some result], sem_world := w1\<rparr>"
    have "finish tasks j st = release ?st1" using c Inr by (simp add: finish_def)
    moreover have "sem_inv tasks k w (release ?st1)"
      by (rule sem_inv_release[OF inv j _ _ _ _ _ quiet]) (simp_all add: t1)
    ultimately show ?thesis by simp
  qed
qed

lemma sem_inv_resume:
  assumes inv: "sem_inv tasks k w st" and nonempty: "sem_woken st \<noteq> []"
  shows "sem_inv tasks k w (resume tasks st)"
proof -
  let ?n = "length tasks"
  from inv obtain tr where
    t: "trace (sem_world st) = trace w @ tr"
    and v: "sem_value st + length (sem_woken st) + length (sem_running st) = k"
    and z: "sem_waiters st \<noteq> [] \<longrightarrow> sem_value st = 0"
    and q: "sem_waiters st = [admitted tasks k tr..<?n]"
    and wk: "sem_woken st = [dispatched tr..<admitted tasks k tr]"
    and le: "dispatched tr \<le> admitted tasks k tr"
    and fl: "in_flight tr = int (length (sem_running st))"
    and nm: "never_more_than k tr"
    and fi: "filter is_invoke tr = map Invoke (take (dispatched tr) tasks)"
    unfolding sem_inv_def by blast
  let ?d = "dispatched tr"
  let ?a = "admitted tasks k tr"
  have da: "?d < ?a" using wk nonempty by simp
  then have dn: "?d < ?n" using admitted_le[of tasks k tr] by simp
  have hd: "sem_woken st = ?d # [Suc ?d..<?a]" using wk da by (simp add: upt_conv_Cons)
  let ?u = "tasks ! ?d"
  let ?tr1 = "tr @ [Invoke ?u]"
  let ?st2 = "resume tasks st"
  have rs: "?st2 = st\<lparr>sem_woken := [Suc ?d..<?a], sem_running := sem_running st @ [?d],
      sem_world := dispatch ?u (sem_world st)\<rparr>"
    using hd by (simp add: resume_def)
  have d1: "dispatched ?tr1 = Suc ?d" by (simp add: dispatched_def)
  have c1: "completed ?tr1 = completed tr" by (simp add: completed_def)
  have a1: "admitted tasks k ?tr1 = ?a" by (simp add: admitted_def c1)
  have t2: "trace (sem_world ?st2) = trace w @ ?tr1"
    using t by (simp add: rs dispatch_def emit_def)
  have wl: "length (sem_woken st) = Suc (length [Suc ?d..<?a])" using hd by simp
  have v2: "sem_value ?st2 + length (sem_woken ?st2) + length (sem_running ?st2) = k"
    using v wl by (simp add: rs)
  have z2: "sem_waiters ?st2 \<noteq> [] \<longrightarrow> sem_value ?st2 = 0"
    using z by (simp add: rs)
  have q2: "sem_waiters ?st2 = [admitted tasks k ?tr1..<?n]"
    using q unfolding a1 by (simp add: rs)
  have wk2: "sem_woken ?st2 = [dispatched ?tr1..<admitted tasks k ?tr1]"
    unfolding a1 d1 by (simp add: rs)
  have le2: "dispatched ?tr1 \<le> admitted tasks k ?tr1"
    unfolding a1 d1 using da by simp
  have fl2: "in_flight ?tr1 = int (length (sem_running ?st2))"
    using fl unfolding in_flight_def d1 c1 by (simp add: rs)
  have "length (sem_running st) < k" using v wl by simp
  then have "in_flight ?tr1 \<le> int k"
    using fl unfolding in_flight_def d1 c1 by simp
  then have nm2: "never_more_than k ?tr1"
    using nm by (simp add: never_more_than_snoc)
  have fi2: "filter is_invoke ?tr1 = map Invoke (take (dispatched ?tr1) tasks)"
    unfolding d1 using fi dn by (simp add: take_Suc_conv_app_nth)
  show ?thesis
    unfolding sem_inv_def
    by (intro exI[of _ ?tr1] conjI; fact t2 v2 z2 q2 wk2 le2 fl2 nm2 fi2)
qed

lemma sem_inv_holds:
  "gather_run_with_semaphore tasks k w st \<Longrightarrow> sem_inv tasks k w st"
proof (induction rule: gather_run_with_semaphore.induct)
  case started
  show ?case by (rule sem_inv_start)
next
  case (finished st j)
  then show ?case by (simp add: sem_inv_finish)
next
  case (resumed st)
  then show ?case by (simp add: sem_inv_resume)
qed

lemma sem_inv_since:
  assumes "sem_inv tasks k w st"
  shows "sem_woken st = [dispatched (since w (sem_world st))..<admitted tasks k (since w (sem_world st))]"
    and "sem_waiters st = [admitted tasks k (since w (sem_world st))..<length tasks]"
    and "dispatched (since w (sem_world st)) \<le> admitted tasks k (since w (sem_world st))"
    and "never_more_than k (since w (sem_world st))"
    and "filter is_invoke (since w (sem_world st)) =
           map Invoke (take (dispatched (since w (sem_world st))) tasks)"
    and "in_flight (since w (sem_world st)) = int (length (sem_running st))"
    and "sem_value st + length (sem_woken st) + length (sem_running st) = k"
    and "sem_waiters st \<noteq> [] \<longrightarrow> sem_value st = 0"
proof -
  from assms obtain tr where
    t: "trace (sem_world st) = trace w @ tr"
    and v: "sem_value st + length (sem_woken st) + length (sem_running st) = k"
    and z: "sem_waiters st \<noteq> [] \<longrightarrow> sem_value st = 0"
    and q: "sem_waiters st = [admitted tasks k tr..<length tasks]"
    and wk: "sem_woken st = [dispatched tr..<admitted tasks k tr]"
    and le: "dispatched tr \<le> admitted tasks k tr"
    and fl: "in_flight tr = int (length (sem_running st))"
    and nm: "never_more_than k tr"
    and fi: "filter is_invoke tr = map Invoke (take (dispatched tr) tasks)"
    unfolding sem_inv_def by blast
  have s: "since w (sem_world st) = tr" by (rule since_append[OF t])
  show "sem_woken st = [dispatched (since w (sem_world st))..<admitted tasks k (since w (sem_world st))]"
    unfolding s by (rule wk)
  show "sem_waiters st = [admitted tasks k (since w (sem_world st))..<length tasks]"
    unfolding s by (rule q)
  show "dispatched (since w (sem_world st)) \<le> admitted tasks k (since w (sem_world st))"
    unfolding s by (rule le)
  show "never_more_than k (since w (sem_world st))" unfolding s by (rule nm)
  show "filter is_invoke (since w (sem_world st)) =
           map Invoke (take (dispatched (since w (sem_world st))) tasks)"
    unfolding s by (rule fi)
  show "in_flight (since w (sem_world st)) = int (length (sem_running st))"
    unfolding s by (rule fl)
  show "sem_value st + length (sem_woken st) + length (sem_running st) = k" by (rule v)
  show "sem_waiters st \<noteq> [] \<longrightarrow> sem_value st = 0" by (rule z)
qed

lemma release_keeps:
  "sem_world (release st) = sem_world st"
  "sem_slots (release st) = sem_slots st"
  "sem_running (release st) = sem_running st"
  "sem_raised (release st) = sem_raised st"
  by (simp_all add: release_def split: list.splits)

lemma sem_inv_trace:
  "sem_inv tasks k w st \<Longrightarrow> trace (sem_world st) = trace w @ since w (sem_world st)"
  unfolding sem_inv_def by (auto simp: since_def)

lemma finish_fields:
  assumes "complete (tasks ! j) (sem_world st) = (r, w1)"
  shows "sem_world (finish tasks j st) = w1"
    and "sem_running (finish tasks j st) = remove1 j (sem_running st)"
    and "sem_slots (finish tasks j st) =
           (case r of Inr result \<Rightarrow> (sem_slots st)[j := Some result] | Inl e \<Rightarrow> sem_slots st)"
    and "sem_raised (finish tasks j st) =
           (case r of Inr result \<Rightarrow> sem_raised st
            | Inl e \<Rightarrow> (case sem_raised st of None \<Rightarrow> Some e | Some e' \<Rightarrow> Some e'))"
  using assms by (simp_all add: finish_def release_keeps split: sum.splits)

lemma since_finish:
  assumes inv: "sem_inv tasks k w st"
  shows "\<exists>logs. since w (sem_world (finish tasks j st)) =
            since w (sem_world st) @ Finish (tasks ! j) # logs \<and>
          (\<forall>e\<in>set logs. \<not> is_invoke e \<and> \<not> is_finish e)"
proof -
  obtain r w1 where c: "complete (tasks ! j) (sem_world st) = (r, w1)"
    by (cases "complete (tasks ! j) (sem_world st)")
  from complete_finish_trace[of "tasks ! j" "sem_world st"] c obtain logs where
    t1: "trace w1 = trace (sem_world st) @ Finish (tasks ! j) # logs"
    and quiet: "\<forall>e\<in>set logs. \<not> is_invoke e \<and> \<not> is_finish e"
    by auto
  have "trace w1 = trace w @ (since w (sem_world st) @ Finish (tasks ! j) # logs)"
    using t1 sem_inv_trace[OF inv] by simp
  then have "since w w1 = since w (sem_world st) @ Finish (tasks ! j) # logs"
    by (rule since_append)
  then show ?thesis using quiet finish_fields(1)[OF c] by auto
qed

lemma dispatched_finish:
  assumes "sem_inv tasks k w st"
  shows "dispatched (since w (sem_world (finish tasks j st))) = dispatched (since w (sem_world st))"
proof -
  from since_finish[OF assms, of j] obtain logs where
    s: "since w (sem_world (finish tasks j st)) = since w (sem_world st) @ Finish (tasks ! j) # logs"
    and quiet: "\<forall>e\<in>set logs. \<not> is_invoke e \<and> \<not> is_finish e"
    by blast
  show ?thesis
    unfolding s using quiet_counts(1)[OF quiet] by (simp add: dispatched_def)
qed

lemma resume_fields:
  assumes inv: "sem_inv tasks k w st" and nonempty: "sem_woken st \<noteq> []"
  shows "since w (sem_world (resume tasks st)) =
           since w (sem_world st) @ [Invoke (tasks ! dispatched (since w (sem_world st)))]"
    and "sem_running (resume tasks st) = sem_running st @ [dispatched (since w (sem_world st))]"
    and "sem_slots (resume tasks st) = sem_slots st"
    and "sem_raised (resume tasks st) = sem_raised st"
    and "dispatched (since w (sem_world st)) < length tasks"
proof -
  let ?d = "dispatched (since w (sem_world st))"
  let ?a = "admitted tasks k (since w (sem_world st))"
  have wk: "sem_woken st = [?d..<?a]" by (rule sem_inv_since(1)[OF inv])
  then have da: "?d < ?a" using nonempty by simp
  then show "?d < length tasks" using admitted_le[of tasks k "since w (sem_world st)"] by simp
  have hd: "sem_woken st = ?d # [Suc ?d..<?a]" using wk da by (simp add: upt_conv_Cons)
  have rs: "resume tasks st = st\<lparr>sem_woken := [Suc ?d..<?a], sem_running := sem_running st @ [?d],
      sem_world := dispatch (tasks ! ?d) (sem_world st)\<rparr>"
    using hd by (simp add: resume_def)
  have "trace (sem_world (resume tasks st)) =
      trace w @ (since w (sem_world st) @ [Invoke (tasks ! ?d)])"
    using sem_inv_trace[OF inv] by (simp add: rs dispatch_def emit_def)
  then show "since w (sem_world (resume tasks st)) = since w (sem_world st) @ [Invoke (tasks ! ?d)]"
    by (rule since_append)
  show "sem_running (resume tasks st) = sem_running st @ [?d]" by (simp add: rs)
  show "sem_slots (resume tasks st) = sem_slots st" by (simp add: rs)
  show "sem_raised (resume tasks st) = sem_raised st" by (simp add: rs)
qed

lemma slots_inv_start: "slots_inv tasks w (start tasks k w)"
proof -
  have "since w (sem_world (start tasks k w)) = map Invoke (take k tasks)"
    by (rule since_append) (simp add: start_eq)
  then have d: "dispatched (since w (sem_world (start tasks k w))) = min (length tasks) k"
    by (simp add: dispatched_invokes)
  show ?thesis
    unfolding slots_inv_def d
    by (auto simp add: start_eq filled_def)
qed

lemma slots_inv_finish:
  assumes inv: "sem_inv tasks k w st" and sl: "slots_inv tasks w st"
    and j: "j \<in> set (sem_running st)"
  shows "slots_inv tasks w (finish tasks j st)"
proof -
  let ?d = "dispatched (since w (sem_world st))"
  let ?st' = "finish tasks j st"
  have f: "filled tasks (sem_slots st)"
    and sub: "set (sem_running st) \<subseteq> {..<?d}"
    and rc: "case sem_raised st of
        None \<Rightarrow> (\<forall>i<?d. i \<in> set (sem_running st) \<or> sem_slots st ! i \<noteq> None)
      | Some e \<Rightarrow> (\<exists>i<length tasks. raised_by (tasks ! i) e)"
    using sl unfolding slots_inv_def by blast+
  have dn: "?d \<le> length tasks"
    using sem_inv_since(3)[OF inv] admitted_le[of tasks k "since w (sem_world st)"] by simp
  have jn: "j < length tasks" using j sub dn by auto
  have len: "length (sem_slots st) = length tasks" using f by (simp add: filled_def)
  have d': "dispatched (since w (sem_world ?st')) = ?d" by (rule dispatched_finish[OF inv])
  obtain r w1 where c: "complete (tasks ! j) (sem_world st) = (r, w1)"
    by (cases "complete (tasks ! j) (sem_world st)")
  note ff = finish_fields[OF c]
  have sub': "set (sem_running ?st') \<subseteq> {..<?d}"
    unfolding ff using sub set_remove1_subset[of j "sem_running st"] by blast
  show ?thesis
  proof (cases r)
    case (Inl e)
    have rb: "raised_by (tasks ! j) e"
      using c Inl complete_fst[of "tasks ! j" "sem_world st"] by (auto simp: raised_by_def)
    have sl': "sem_slots ?st' = sem_slots st" unfolding ff using Inl by simp
    have "\<exists>e'. sem_raised ?st' = Some e' \<and> (\<exists>i<length tasks. raised_by (tasks ! i) e')"
      unfolding ff using Inl rc rb jn by (cases "sem_raised st") auto
    then show ?thesis
      unfolding slots_inv_def d' sl' using f sub' by auto
  next
    case (Inr result)
    have r: "\<exists>s. fst (call (tasks ! j) s) = Inr result"
      using c Inr complete_fst[of "tasks ! j" "sem_world st"] by auto
    have sl': "sem_slots ?st' = (sem_slots st)[j := Some result]" unfolding ff using Inr by simp
    have ra': "sem_raised ?st' = sem_raised st" unfolding ff using Inr by simp
    have f': "filled tasks ((sem_slots st)[j := Some result])"
      unfolding filled_def
    proof (intro conjI allI impI)
      show "length ((sem_slots st)[j := Some result]) = length tasks" using len by simp
    next
      fix i v
      assume i: "i < length tasks" and v: "(sem_slots st)[j := Some result] ! i = Some v"
      show "\<exists>s. fst (call (tasks ! i) s) = Inr v"
      proof (cases "i = j")
        case True
        then have "v = result" using v len jn by simp
        then show ?thesis using r True by simp
      next
        case False
        then have "sem_slots st ! i = Some v" using v by simp
        then show ?thesis using f i unfolding filled_def by blast
      qed
    qed
    have rc': "case sem_raised st of
        None \<Rightarrow> (\<forall>i<?d. i \<in> set (sem_running ?st') \<or> (sem_slots st)[j := Some result] ! i \<noteq> None)
      | Some e \<Rightarrow> (\<exists>i<length tasks. raised_by (tasks ! i) e)"
    proof (cases "sem_raised st")
      case None
      have "i \<in> set (sem_running ?st') \<or> (sem_slots st)[j := Some result] ! i \<noteq> None"
        if i: "i < ?d" for i
      proof (cases "i = j")
        case True
        then show ?thesis using len jn by simp
      next
        case False
        have "i \<in> set (sem_running st) \<or> sem_slots st ! i \<noteq> None"
          using rc None i by simp
        then show ?thesis
          unfolding ff using False by auto
      qed
      then show ?thesis using None by simp
    next
      case (Some e)
      then show ?thesis using rc by simp
    qed
    show ?thesis
      unfolding slots_inv_def d' sl' ra' using f' sub' rc' by simp
  qed
qed

lemma slots_inv_resume:
  assumes inv: "sem_inv tasks k w st" and sl: "slots_inv tasks w st"
    and nonempty: "sem_woken st \<noteq> []"
  shows "slots_inv tasks w (resume tasks st)"
proof -
  let ?d = "dispatched (since w (sem_world st))"
  note rf = resume_fields[OF inv nonempty]
  have d': "dispatched (since w (sem_world (resume tasks st))) = Suc ?d"
    unfolding rf(1) by (simp add: dispatched_def)
  have f: "filled tasks (sem_slots st)"
    and sub: "set (sem_running st) \<subseteq> {..<?d}"
    and rc: "case sem_raised st of
        None \<Rightarrow> (\<forall>i<?d. i \<in> set (sem_running st) \<or> sem_slots st ! i \<noteq> None)
      | Some e \<Rightarrow> (\<exists>i<length tasks. raised_by (tasks ! i) e)"
    using sl unfolding slots_inv_def by blast+
  have sub': "set (sem_running st @ [?d]) \<subseteq> {..<Suc ?d}" using sub by auto
  have rc': "case sem_raised st of
        None \<Rightarrow> (\<forall>i<Suc ?d. i \<in> set (sem_running st @ [?d]) \<or> sem_slots st ! i \<noteq> None)
      | Some e \<Rightarrow> (\<exists>i<length tasks. raised_by (tasks ! i) e)"
    using rc by (cases "sem_raised st") (auto simp: less_Suc_eq)
  show ?thesis
    unfolding slots_inv_def d' rf(2,3,4) using f sub' rc' by simp
qed

lemma slots_inv_holds:
  "gather_run_with_semaphore tasks k w st \<Longrightarrow> slots_inv tasks w st"
proof (induction rule: gather_run_with_semaphore.induct)
  case started
  show ?case by (rule slots_inv_start)
next
  case (finished st j)
  then show ?case using sem_inv_holds slots_inv_finish by blast
next
  case (resumed st)
  then show ?case using sem_inv_holds slots_inv_resume by blast
qed

lemma pending_finish:
  assumes "j \<in> set (sem_running st)"
  shows "pending (finish tasks j st) < pending st"
proof -
  have "length (remove1 j (sem_running st)) < length (sem_running st)"
    using assms length_pos_if_in_set[of j "sem_running st"] by (simp add: length_remove1)
  then show ?thesis
    by (simp add: pending_def finish_def release_def split: prod.splits sum.splits list.splits)
qed

lemma pending_resume:
  assumes "sem_woken st \<noteq> []"
  shows "pending (resume tasks st) < pending st"
  using assms by (cases "sem_woken st") (simp_all add: pending_def resume_def)

lemma gather_settles:
  assumes "gather_run_with_semaphore tasks k w st"
    and "sem_running st = []" and "sem_woken st = []" and "sem_waiters st = []"
    and "sem_raised st = None"
  shows "\<exists>results. gather_result st = Some (Inr results) \<and> list_all2 returned_by tasks results"
proof -
  let ?tr = "since w (sem_world st)"
  note inv = sem_inv_holds[OF assms(1)]
  have "[admitted tasks k ?tr..<length tasks] = []"
    using sem_inv_since(2)[OF inv] assms(4) by simp
  then have "length tasks \<le> admitted tasks k ?tr" by auto
  then have a: "admitted tasks k ?tr = length tasks"
    using admitted_le[of tasks k ?tr] by simp
  have "[dispatched ?tr..<admitted tasks k ?tr] = []"
    using sem_inv_since(1)[OF inv] assms(3) by simp
  then have "admitted tasks k ?tr \<le> dispatched ?tr" by auto
  then have d: "dispatched ?tr = length tasks"
    using sem_inv_since(3)[OF inv] a by simp
  have sl: "slots_inv tasks w st" by (rule slots_inv_holds[OF assms(1)])
  have f: "filled tasks (sem_slots st)" using sl unfolding slots_inv_def by blast
  have len: "length (sem_slots st) = length tasks" using f by (simp add: filled_def)
  have all: "\<forall>i<length tasks. sem_slots st ! i \<noteq> None"
    using sl assms(2,5) unfolding slots_inv_def d by simp
  then have "\<forall>x\<in>set (sem_slots st). x \<noteq> None"
    using len by (metis in_set_conv_nth)
  then have th: "those (sem_slots st) = Some (map the (sem_slots st))"
    by (rule those_all_some)
  have "list_all2 returned_by tasks (map the (sem_slots st))"
    unfolding list_all2_conv_all_nth
  proof (intro conjI allI impI)
    show "length tasks = length (map the (sem_slots st))" using len by simp
  next
    fix i
    assume i: "i < length tasks"
    then obtain v where v: "sem_slots st ! i = Some v" using all by auto
    then have "\<exists>s. fst (call (tasks ! i) s) = Inr v" using f i unfolding filled_def by blast
    then show "returned_by (tasks ! i) (map the (sem_slots st) ! i)"
      using v i len by (simp add: returned_by_def)
  qed
  then show ?thesis
    using th assms(2-5) by (simp add: gather_result_def)
qed

lemma gather_result_cases:
  assumes "gather_run_with_semaphore tasks k w st" and "gather_result st = Some r"
  shows "case r of
           Inl e \<Rightarrow> (\<exists>i<length tasks. raised_by (tasks ! i) e)
         | Inr results \<Rightarrow> list_all2 returned_by tasks results"
proof (cases "sem_raised st")
  case (Some e)
  have "\<exists>i<length tasks. raised_by (tasks ! i) e"
    using slots_inv_holds[OF assms(1)] Some unfolding slots_inv_def by simp
  moreover have "r = Inl e" using assms(2) Some by (simp add: gather_result_def)
  ultimately show ?thesis by simp
next
  case None
  then have e: "sem_running st = []" "sem_woken st = []" "sem_waiters st = []"
    using assms(2) by (simp_all add: gather_result_def split: if_splits)
  from gather_settles[OF assms(1) e None] assms(2) show ?thesis by auto
qed

lemma gather_progress:
  assumes run: "gather_run_with_semaphore tasks k w st" and k: "0 < k"
    and unsettled: "gather_result st = None"
  shows "sem_running st \<noteq> [] \<or> sem_woken st \<noteq> []"
proof (rule ccontr)
  assume "\<not> (sem_running st \<noteq> [] \<or> sem_woken st \<noteq> [])"
  then have e: "sem_running st = []" "sem_woken st = []" by simp_all
  note inv = sem_inv_holds[OF run]
  have "sem_value st = k" using sem_inv_since(7)[OF inv] e by simp
  then have q: "sem_waiters st = []" using sem_inv_since(8)[OF inv] k by auto
  have "sem_raised st = None" using unsettled by (simp add: gather_result_def split: option.splits)
  from gather_settles[OF run e q this] unsettled show False by simp
qed

lemma gather_returns:
  assumes "gather_run_with_semaphore tasks k w st" and "0 < k"
  shows "\<exists>st' r. gather_run_with_semaphore tasks k w st' \<and> gather_result st' = Some r"
  using assms
proof (induction "pending st" arbitrary: st rule: less_induct)
  case less
  show ?case
  proof (cases "gather_result st")
    case (Some r)
    then show ?thesis using less.prems(1) by blast
  next
    case None
    from gather_progress[OF less.prems(1,2) None]
    consider "sem_running st \<noteq> []" | "sem_woken st \<noteq> []" by blast
    then show ?thesis
    proof cases
      case 1
      then have j: "hd (sem_running st) \<in> set (sem_running st)" by simp
      have "gather_run_with_semaphore tasks k w (finish tasks (hd (sem_running st)) st)"
        by (rule finished[OF less.prems(1) j])
      then show ?thesis
        using less.hyps[OF pending_finish[OF j]] less.prems(2) by blast
    next
      case 2
      have "gather_run_with_semaphore tasks k w (resume tasks st)"
        by (rule resumed[OF less.prems(1) 2])
      then show ?thesis
        using less.hyps[OF pending_resume[OF 2]] less.prems(2) by blast
    qed
  qed
qed

text \<open>
  With a bound of at least 1 the call returns; what it returns is one result per unit, in
  submission order, each returned by the unit of its position, or an exception raised by
  one of the units. With the bound 0 and at least one unit every coroutine blocks and the
  call never returns.
\<close>

lemma run_with_resource_management_returns:
  assumes "1 \<le> max_concurrent"
  shows "\<exists>r w'. run_with_resource_management tasks max_concurrent w (r, w')"
proof -
  have k: "0 < nat max_concurrent" using assms by simp
  from gather_returns[OF started k] obtain st r where
    "gather_run_with_semaphore tasks (nat max_concurrent) w st" and "gather_result st = Some r"
    by blast
  then have "run_with_resource_management tasks max_concurrent w (r, sem_world st)"
    using assms by (intro returned) simp_all
  then show ?thesis by blast
qed

lemma run_with_resource_management_outcome:
  assumes "run_with_resource_management tasks max_concurrent w (r, w')"
    and "0 \<le> max_concurrent"
  shows "never_more_than (nat max_concurrent) (since w w') \<and>
         (case r of
            Inl e \<Rightarrow> (\<exists>i<length tasks. raised_by (tasks ! i) e)
          | Inr results \<Rightarrow> list_all2 returned_by tasks results)"
  using assms
proof (cases rule: run_with_resource_management.cases)
  case refused
  then show ?thesis using assms(2) by simp
next
  case (returned st)
  have g: "gather_run_with_semaphore tasks (nat max_concurrent) w st"
    and r: "gather_result st = Some r" and w': "w' = sem_world st"
    using returned by simp_all
  show ?thesis
    unfolding w'
    using sem_inv_since(4)[OF sem_inv_holds[OF g]] gather_result_cases[OF g r]
    by simp
qed

lemma gather_stuck:
  assumes "gather_run_with_semaphore tasks 0 w st"
  shows "st = start tasks 0 w"
  using assms
proof (induction rule: gather_run_with_semaphore.induct)
  case started
  show ?case by simp
next
  case (finished st j)
  then show ?case by (simp add: start_eq)
next
  case (resumed st)
  then show ?case by (simp add: start_eq)
qed

lemma run_with_resource_management_zero:
  assumes "tasks \<noteq> []"
  shows "\<not> run_with_resource_management tasks 0 w out"
proof
  assume "run_with_resource_management tasks 0 w out"
  then show False
  proof (cases rule: run_with_resource_management.cases)
    case refused
    then show ?thesis by simp
  next
    case (returned st r)
    then have "st = start tasks 0 w" using gather_stuck by simp
    then show ?thesis using returned assms by (simp add: start_eq gather_result_def)
  qed
qed

text \<open>
  Claim C9. Take a bound \<open>k\<close> of at least 1, any units, and any order in which they
  complete. In every state that a call of \<^verbatim>\<open>run_with_resource_management\<close> can be in:
  never more than \<open>k\<close> units were in flight, so never more than \<open>k\<close> were running; the
  units were dispatched in submission order; when \<open>c\<close> outcomes have been received
  exactly the first \<open>min n (k + c)\<close> of the \<open>n\<close> units have been given a slot, those of
  them not dispatched yet are the coroutines woken, in order, and all later units are
  blocked, in order, so each outcome received admits the unit queued first; while a unit is
  blocked all \<open>k\<close> slots are taken; and as long as \<^verbatim>\<open>gather\<close> has no outcome a unit is in
  flight or a woken coroutine is about to dispatch one. Whatever the call returns with,
  never more than \<open>k\<close> units were in flight up to then; and the call does return.
\<close>

theorem run_with_resource_management_bound:
  assumes "1 \<le> max_concurrent"
  shows "(\<forall>st. gather_run_with_semaphore tasks (nat max_concurrent) w st \<longrightarrow>
            never_more_than (nat max_concurrent) (since w (sem_world st)) \<and>
            filter is_invoke (since w (sem_world st)) =
              map Invoke (take (dispatched (since w (sem_world st))) tasks) \<and>
            sem_woken st =
              [dispatched (since w (sem_world st))..<
               admitted tasks (nat max_concurrent) (since w (sem_world st))] \<and>
            sem_waiters st =
              [admitted tasks (nat max_concurrent) (since w (sem_world st))..<length tasks] \<and>
            (sem_waiters st \<noteq> [] \<longrightarrow>
               in_flight (since w (sem_world st)) + int (length (sem_woken st)) =
                 max_concurrent) \<and>
            (gather_result st = None \<longrightarrow> sem_running st \<noteq> [] \<or> sem_woken st \<noteq> [])) \<and>
         (\<forall>r w'. run_with_resource_management tasks max_concurrent w (r, w') \<longrightarrow>
            never_more_than (nat max_concurrent) (since w w')) \<and>
         (\<exists>r w'. run_with_resource_management tasks max_concurrent w (r, w'))"
proof (intro conjI allI impI)
  let ?k = "nat max_concurrent"
  have k: "0 < ?k" using assms by simp
  {
    fix st
    assume run: "gather_run_with_semaphore tasks ?k w st"
    note inv = sem_inv_holds[OF run]
    show "never_more_than ?k (since w (sem_world st))" by (rule sem_inv_since(4)[OF inv])
    show "filter is_invoke (since w (sem_world st)) =
        map Invoke (take (dispatched (since w (sem_world st))) tasks)"
      by (rule sem_inv_since(5)[OF inv])
    show "sem_woken st =
        [dispatched (since w (sem_world st))..<admitted tasks ?k (since w (sem_world st))]"
      by (rule sem_inv_since(1)[OF inv])
    show "sem_waiters st = [admitted tasks ?k (since w (sem_world st))..<length tasks]"
      by (rule sem_inv_since(2)[OF inv])
    {
      assume "sem_waiters st \<noteq> []"
      then have "sem_value st = 0" using sem_inv_since(8)[OF inv] by simp
      then have "length (sem_woken st) + length (sem_running st) = ?k"
        using sem_inv_since(7)[OF inv] by simp
      then show "in_flight (since w (sem_world st)) + int (length (sem_woken st)) =
          max_concurrent"
        using sem_inv_since(6)[OF inv] assms by simp
    }
    {
      assume "gather_result st = None"
      then show "sem_running st \<noteq> [] \<or> sem_woken st \<noteq> []"
        by (rule gather_progress[OF run k])
    }
  }
  {
    fix r w'
    assume "run_with_resource_management tasks max_concurrent w (r, w')"
    then show "never_more_than ?k (since w w')"
      using run_with_resource_management_outcome[of tasks max_concurrent w r w'] assms by simp
  }
  show "\<exists>r w'. run_with_resource_management tasks max_concurrent w (r, w')"
    by (rule run_with_resource_management_returns[OF assms])
qed

theorem run_with_resource_management_bound_witness:
  "(1::int) \<le> 2 \<and>
   gather_run_with_semaphore
     [succeeding ''A'' (1::nat) 3, succeeding ''B'' 2 1, succeeding ''C'' 3 1,
      succeeding ''D'' 4 1] 2 fresh
     (resume [succeeding ''A'' (1::nat) 3, succeeding ''B'' 2 1, succeeding ''C'' 3 1,
      succeeding ''D'' 4 1]
        (finish [succeeding ''A'' (1::nat) 3, succeeding ''B'' 2 1, succeeding ''C'' 3 1,
      succeeding ''D'' 4 1] 1
           (start [succeeding ''A'' (1::nat) 3, succeeding ''B'' 2 1, succeeding ''C'' 3 1,
      succeeding ''D'' 4 1] 2 fresh))) \<and>
   since fresh (sem_world
     (resume [succeeding ''A'' (1::nat) 3, succeeding ''B'' 2 1, succeeding ''C'' 3 1,
      succeeding ''D'' 4 1]
        (finish [succeeding ''A'' (1::nat) 3, succeeding ''B'' 2 1, succeeding ''C'' 3 1,
      succeeding ''D'' 4 1] 1
           (start [succeeding ''A'' (1::nat) 3, succeeding ''B'' 2 1, succeeding ''C'' 3 1,
      succeeding ''D'' 4 1] 2 fresh)))) =
     [Invoke (succeeding ''A'' 1 3), Invoke (succeeding ''B'' 2 1),
      Finish (succeeding ''B'' 2 1), Invoke (succeeding ''C'' 3 1)] \<and>
   sem_waiters
     (resume [succeeding ''A'' (1::nat) 3, succeeding ''B'' 2 1, succeeding ''C'' 3 1,
      succeeding ''D'' 4 1]
        (finish [succeeding ''A'' (1::nat) 3, succeeding ''B'' 2 1, succeeding ''C'' 3 1,
      succeeding ''D'' 4 1] 1
           (start [succeeding ''A'' (1::nat) 3, succeeding ''B'' 2 1, succeeding ''C'' 3 1,
      succeeding ''D'' 4 1] 2 fresh))) = [3] \<and>
   never_more_than 2 (since fresh (sem_world
     (resume [succeeding ''A'' (1::nat) 3, succeeding ''B'' 2 1, succeeding ''C'' 3 1,
      succeeding ''D'' 4 1]
        (finish [succeeding ''A'' (1::nat) 3, succeeding ''B'' 2 1, succeeding ''C'' 3 1,
      succeeding ''D'' 4 1] 1
           (start [succeeding ''A'' (1::nat) 3, succeeding ''B'' 2 1, succeeding ''C'' 3 1,
      succeeding ''D'' 4 1] 2 fresh)))))"
proof -
  let ?tasks = "[succeeding ''A'' (1::nat) 3, succeeding ''B'' 2 1, succeeding ''C'' 3 1,
      succeeding ''D'' 4 1]"
  let ?st0 = "start ?tasks 2 fresh"
  let ?st1 = "finish ?tasks 1 ?st0"
  let ?st2 = "resume ?tasks ?st1"
  have k: "(1::int) \<le> 2" by simp
  have r0: "gather_run_with_semaphore ?tasks 2 fresh ?st0" by (rule started)
  have "1 \<in> set (sem_running ?st0)" by (simp add: start_eq)
  then have r1: "gather_run_with_semaphore ?tasks 2 fresh ?st1" by (rule finished[OF r0])
  have "sem_woken ?st1 \<noteq> []"
    by (simp add: start_eq finish_def release_def complete_def emit_def succeeding_def)
  then have r2: "gather_run_with_semaphore ?tasks 2 fresh ?st2" by (rule resumed[OF r1])
  have r2': "gather_run_with_semaphore ?tasks (nat 2) fresh ?st2" using r2 by simp
  from run_with_resource_management_bound[OF k, of ?tasks fresh]
  have "\<forall>st. gather_run_with_semaphore ?tasks (nat 2) fresh st \<longrightarrow>
      never_more_than (nat 2) (since fresh (sem_world st))"
    by blast
  then have b: "never_more_than 2 (since fresh (sem_world ?st2))" using r2' by simp
  have t: "since fresh (sem_world ?st2) =
     [Invoke (succeeding ''A'' 1 3), Invoke (succeeding ''B'' 2 1),
      Finish (succeeding ''B'' 2 1), Invoke (succeeding ''C'' 3 1)]"
    by (simp add: start_eq finish_def release_def resume_def complete_def dispatch_def emit_def
        succeeding_def fresh_def since_def)
  have q: "sem_waiters ?st2 = [3]"
    by (simp add: start_eq finish_def release_def resume_def complete_def dispatch_def emit_def
        succeeding_def fresh_def)
  show ?thesis
    by (intro conjI; fact k r2 t q b)
qed

end
